theory Spec2Isabelle
  imports Main
begin

section \<open>JSON values\<close>

text \<open>
  The server keeps every piece of data as a plain JavaScript value that came out of
  \<^verbatim>\<open>JSON.parse\<close> or was built from literals: submissions, tracks, the record list.
  A value is modelled by the datatype below; \<^verbatim>\<open>undefined\<close> is \<open>None\<close> of \<open>json option\<close>.
  An object is the list of its members in insertion order, with distinct keys.
  Strings are lists of code units below 256, numbers are integers (the server computes
  a single number, the integer \<^verbatim>\<open>numSongs\<close>).
\<close>

datatype json =
    JNull
  | JBool bool
  | JNum int
  | JStr string
  | JArr "json list"
  | JObj "(string \<times> json) list"

datatype failure = TypeError | MulterError

text \<open>\<^verbatim>\<open>obj[k] = v\<close>: an existing member keeps its place, a new one goes last.\<close>

fun obj_set :: "string \<Rightarrow> json \<Rightarrow> (string \<times> json) list \<Rightarrow> (string \<times> json) list" where
  "obj_set k v [] = [(k, v)]"
| "obj_set k v ((k', v') # kvs) =
     (if k = k' then (k', v) # kvs else (k', v') # obj_set k v kvs)"

text \<open>Truthiness, and \<^verbatim>\<open>x || d\<close> for a value \<open>x\<close> that may be undefined.\<close>

fun truthy :: "json \<Rightarrow> bool" where
  "truthy JNull = False"
| "truthy (JBool b) = b"
| "truthy (JNum n) = (n \<noteq> 0)"
| "truthy (JStr s) = (s \<noteq> [])"
| "truthy (JArr xs) = True"
| "truthy (JObj kvs) = True"

fun or_else :: "json option \<Rightarrow> json \<Rightarrow> json" where
  "or_else None d = d"
| "or_else (Some v) d = (if truthy v then v else d)"

text \<open>
  \<^verbatim>\<open>x.k\<close> for one of the member names the server reads (none of them is a property of
  a string, a number, a boolean or an array): reading a member of \<^verbatim>\<open>null\<close> throws.
\<close>

fun get_prop :: "json \<Rightarrow> string \<Rightarrow> failure + json option" where
  "get_prop JNull k = Inl TypeError"
| "get_prop (JObj kvs) k = Inr (map_of kvs k)"
| "get_prop v k = Inr None"

section \<open>JSON text\<close>

subsection \<open>Numbers\<close>

definition digit_char :: "nat \<Rightarrow> char" where
  "digit_char d = ''0123456789abcdef'' ! d"

fun show_nat :: "nat \<Rightarrow> string" where
  "show_nat n = (if n < 10 then [digit_char n] else show_nat (n div 10) @ [digit_char (n mod 10)])"

declare show_nat.simps [simp del]

definition show_int :: "int \<Rightarrow> string" where
  "show_int i = (if i < 0 then CHR ''-'' # show_nat (nat (- i)) else show_nat (nat i))"

definition is_digit :: "char \<Rightarrow> bool" where
  "is_digit c = (48 \<le> (of_char c :: nat) \<and> (of_char c :: nat) \<le> 57)"

definition digit_val :: "char \<Rightarrow> nat" where
  "digit_val c = of_char c - 48"

definition nat_of_digits :: "string \<Rightarrow> nat" where
  "nat_of_digits ds = foldl (\<lambda>a c. 10 * a + digit_val c) 0 ds"

subsection \<open>Serialising: \<^verbatim>\<open>JSON.stringify(v, null, 2)\<close>\<close>

definition hex2 :: "char \<Rightarrow> string" where
  "hex2 c = [digit_char ((of_char c :: nat) div 16), digit_char ((of_char c :: nat) mod 16)]"

definition escape_char :: "char \<Rightarrow> string" where
  "escape_char c =
     (if c = CHR 0x22 then [CHR 0x5C, CHR 0x22]
      else if c = CHR 0x5C then [CHR 0x5C, CHR 0x5C]
      else if c = CHR 0x08 then [CHR 0x5C, CHR ''b'']
      else if c = CHR 0x0C then [CHR 0x5C, CHR ''f'']
      else if c = CHR 0x0A then [CHR 0x5C, CHR ''n'']
      else if c = CHR 0x0D then [CHR 0x5C, CHR ''r'']
      else if c = CHR 0x09 then [CHR 0x5C, CHR ''t'']
      else if (of_char c :: nat) < 32 then [CHR 0x5C, CHR ''u'', CHR ''0'', CHR ''0''] @ hex2 c
      else [c])"

definition quote :: "string \<Rightarrow> string" where
  "quote s = CHR 0x22 # concat (map escape_char s) @ [CHR 0x22]"

fun join :: "string \<Rightarrow> string list \<Rightarrow> string" where
  "join sep [] = []"
| "join sep [x] = x"
| "join sep (x # y # ys) = x @ sep @ join sep (y # ys)"

definition indent :: "nat \<Rightarrow> string" where
  "indent d = replicate (2 * d) CHR '' ''"

text \<open>\<open>ser d v\<close> is the text of \<open>v\<close> at nesting depth \<open>d\<close> (the gap is two spaces).\<close>

fun ser :: "nat \<Rightarrow> json \<Rightarrow> string" where
  "ser d JNull = ''null''"
| "ser d (JBool b) = (if b then ''true'' else ''false'')"
| "ser d (JNum n) = show_int n"
| "ser d (JStr s) = quote s"
| "ser d (JArr xs) =
     (if xs = [] then ''[]''
      else CHR ''['' # CHR 0x0A # indent (Suc d)
           @ join (CHR '','' # CHR 0x0A # indent (Suc d)) (map (ser (Suc d)) xs)
           @ CHR 0x0A # indent d @ '']'')"
| "ser d (JObj kvs) =
     (if kvs = [] then ''{}''
      else CHR ''{'' # CHR 0x0A # indent (Suc d)
           @ join (CHR '','' # CHR 0x0A # indent (Suc d))
               (map (\<lambda>(k, v). quote k @ '': '' @ ser (Suc d) v) kvs)
           @ CHR 0x0A # indent d @ ''}'')"

definition JSON_stringify :: "json \<Rightarrow> string" where
  "JSON_stringify v = ser 0 v"

subsection \<open>Parsing: \<^verbatim>\<open>JSON.parse\<close>\<close>

definition is_ws :: "char \<Rightarrow> bool" where
  "is_ws c = (c = CHR '' '' \<or> c = CHR 0x09 \<or> c = CHR 0x0A \<or> c = CHR 0x0D)"

definition skip_ws :: "string \<Rightarrow> string" where
  "skip_ws s = dropWhile is_ws s"

definition strip_prefix :: "string \<Rightarrow> string \<Rightarrow> string option" where
  "strip_prefix p s = (if take (length p) s = p then Some (drop (length p) s) else None)"

definition hex_val :: "char \<Rightarrow> nat option" where
  "hex_val c =
     (let n = (of_char c :: nat) in
      if 48 \<le> n \<and> n \<le> 57 then Some (n - 48)
      else if 97 \<le> n \<and> n \<le> 102 then Some (n - 87)
      else if 65 \<le> n \<and> n \<le> 70 then Some (n - 55)
      else None)"

text \<open>
  \<^verbatim>\<open>\uXXXX\<close>: four hexadecimal digits. A code unit of 256 or more is outside the strings
  modelled here, and the text is then not accepted.
\<close>

definition hex4 :: "char \<Rightarrow> char \<Rightarrow> char \<Rightarrow> char \<Rightarrow> char option" where
  "hex4 a b c d =
     (case (hex_val a, hex_val b, hex_val c, hex_val d) of
        (Some x, Some y, Some z, Some w) \<Rightarrow>
          (let n = ((x * 16 + y) * 16 + z) * 16 + w in
           if n < 256 then Some (char_of n) else None)
      | _ \<Rightarrow> None)"

definition unescape :: "char \<Rightarrow> char option" where
  "unescape e =
     (if e = CHR 0x22 then Some (CHR 0x22)
      else if e = CHR 0x5C then Some (CHR 0x5C)
      else if e = CHR ''/'' then Some (CHR ''/'')
      else if e = CHR ''b'' then Some (CHR 0x08)
      else if e = CHR ''f'' then Some (CHR 0x0C)
      else if e = CHR ''n'' then Some (CHR 0x0A)
      else if e = CHR ''r'' then Some (CHR 0x0D)
      else if e = CHR ''t'' then Some (CHR 0x09)
      else None)"

definition cons_fst :: "'a \<Rightarrow> ('a list \<times> 'b) option \<Rightarrow> ('a list \<times> 'b) option" where
  "cons_fst x r = (case r of None \<Rightarrow> None | Some (xs, rest) \<Rightarrow> Some (x # xs, rest))"

text \<open>The characters of a string literal, after its opening quote, up to the closing one.\<close>

fun parse_chars :: "string \<Rightarrow> (string \<times> string) option" where
  "parse_chars [] = None"
| "parse_chars (c # cs) =
     (if c = CHR 0x22 then Some ([], cs)
      else if c = CHR 0x5C then
        (case cs of
           [] \<Rightarrow> None
         | e # cs1 \<Rightarrow>
             if e = CHR ''u'' then
               (case cs1 of
                  h1 # h2 # h3 # h4 # cs2 \<Rightarrow>
                    (case hex4 h1 h2 h3 h4 of
                       None \<Rightarrow> None
                     | Some ch \<Rightarrow> cons_fst ch (parse_chars cs2))
                | _ \<Rightarrow> None)
             else
               (case unescape e of
                  None \<Rightarrow> None
                | Some ch \<Rightarrow> cons_fst ch (parse_chars cs1)))
      else if (of_char c :: nat) < 32 then None
      else cons_fst c (parse_chars cs))"

text \<open>
  A number: an optional minus sign and an integer without leading zeros. A fraction or
  an exponent is outside the integers modelled here, and the text is then not accepted.
\<close>

definition parse_number :: "string \<Rightarrow> (json \<times> string) option" where
  "parse_number s =
     (let neg = (case s of [] \<Rightarrow> False | c # _ \<Rightarrow> c = CHR ''-'');
          s1 = (if neg then tl s else s);
          ds = takeWhile is_digit s1;
          rest = dropWhile is_digit s1
      in if ds = [] then None
         else if hd ds = CHR ''0'' \<and> 1 < length ds then None
         else if (case rest of [] \<Rightarrow> False
                  | c # _ \<Rightarrow> c = CHR ''.'' \<or> c = CHR ''e'' \<or> c = CHR ''E'') then None
         else Some (JNum (if neg then - int (nat_of_digits ds) else int (nat_of_digits ds)), rest))"

text \<open>Members are defined in the order of the text; a repeated key keeps its last value.\<close>

definition obj_of_members :: "(string \<times> json) list \<Rightarrow> (string \<times> json) list" where
  "obj_of_members ms = foldl (\<lambda>kvs (k, v). obj_set k v kvs) [] ms"

text \<open>
  Recursive descent. The first argument bounds the number of nested calls; \<open>JSON_parse\<close>
  starts it at the length of the text, which is never exhausted (\<open>parse_value_fuel\<close>).
\<close>

fun parse_value :: "nat \<Rightarrow> string \<Rightarrow> (json \<times> string) option"
  and parse_elements :: "nat \<Rightarrow> string \<Rightarrow> (json list \<times> string) option"
  and parse_members :: "nat \<Rightarrow> string \<Rightarrow> ((string \<times> json) list \<times> string) option"
where
  "parse_value 0 s = None"
| "parse_value (Suc n) [] = None"
| "parse_value (Suc n) (c # cs) =
     (if c = CHR ''['' then
        (case skip_ws cs of
           [] \<Rightarrow> None
         | c1 # cs1 \<Rightarrow>
             if c1 = CHR '']'' then Some (JArr [], cs1)
             else (case parse_elements n (c1 # cs1) of
                     None \<Rightarrow> None
                   | Some (vs, r) \<Rightarrow> Some (JArr vs, r)))
      else if c = CHR ''{'' then
        (case skip_ws cs of
           [] \<Rightarrow> None
         | c1 # cs1 \<Rightarrow>
             if c1 = CHR ''}'' then Some (JObj [], cs1)
             else (case parse_members n (c1 # cs1) of
                     None \<Rightarrow> None
                   | Some (ms, r) \<Rightarrow> Some (JObj (obj_of_members ms), r)))
      else if c = CHR 0x22 then
        (case parse_chars cs of
           None \<Rightarrow> None
         | Some (str, r) \<Rightarrow> Some (JStr str, r))
      else if c = CHR ''n'' then map_option (Pair JNull) (strip_prefix ''ull'' cs)
      else if c = CHR ''t'' then map_option (Pair (JBool True)) (strip_prefix ''rue'' cs)
      else if c = CHR ''f'' then map_option (Pair (JBool False)) (strip_prefix ''alse'' cs)
      else parse_number (c # cs))"
| "parse_elements 0 s = None"
| "parse_elements (Suc n) s =
     (case parse_value n s of
        None \<Rightarrow> None
      | Some (v, r) \<Rightarrow>
          (case skip_ws r of
             [] \<Rightarrow> None
           | c # r1 \<Rightarrow>
               if c = CHR '','' then cons_fst v (parse_elements n (skip_ws r1))
               else if c = CHR '']'' then Some ([v], r1)
               else None))"
| "parse_members 0 s = None"
| "parse_members (Suc n) [] = None"
| "parse_members (Suc n) (q # s) =
     (if q \<noteq> CHR 0x22 then None
      else case parse_chars s of
        None \<Rightarrow> None
      | Some (k, r) \<Rightarrow>
          (case skip_ws r of
             [] \<Rightarrow> None
           | c # r1 \<Rightarrow>
               if c \<noteq> CHR '':'' then None
               else (case parse_value n (skip_ws r1) of
                       None \<Rightarrow> None
                     | Some (v, r2) \<Rightarrow>
                         (case skip_ws r2 of
                            [] \<Rightarrow> None
                          | c2 # r3 \<Rightarrow>
                              if c2 = CHR '','' then cons_fst (k, v) (parse_members n (skip_ws r3))
                              else if c2 = CHR ''}'' then Some ([(k, v)], r3)
                              else None))))"

definition JSON_parse :: "string \<Rightarrow> json option" where
  "JSON_parse s =
     (case parse_value (length s) (skip_ws s) of
        None \<Rightarrow> None
      | Some (v, r) \<Rightarrow> if skip_ws r = [] then Some v else None)"

text \<open>
  Values whose objects have distinct keys: every value \<open>JSON_parse\<close> returns is one
  (\<open>JSON_parse_wf\<close>), and on these \<open>JSON_parse\<close> inverts \<open>JSON_stringify\<close>
  (\<open>JSON_parse_stringify\<close>).
\<close>

fun wf_json :: "json \<Rightarrow> bool" where
  "wf_json (JArr xs) = (\<forall>x\<in>set xs. wf_json x)"
| "wf_json (JObj kvs) = (distinct (map fst kvs) \<and> (\<forall>kv\<in>set kvs. wf_json (snd kv)))"
| "wf_json v = True"

text \<open>What follows a serialised value in a serialised text: nothing, a comma or a line break.\<close>

definition sep_start :: "string \<Rightarrow> bool" where
  "sep_start rest = (case rest of [] \<Rightarrow> True | c # _ \<Rightarrow> c = CHR '','' \<or> c = CHR 0x0A)"

section \<open>String and path operations\<close>

text \<open>White space of \<^verbatim>\<open>String.prototype.trim\<close> and \<^verbatim>\<open>parseInt\<close>, among the code units below 256.\<close>

definition is_js_space :: "char \<Rightarrow> bool" where
  "is_js_space c = (c = CHR 0x09 \<or> c = CHR 0x0A \<or> c = CHR 0x0B \<or> c = CHR 0x0C \<or> c = CHR 0x0D
                    \<or> c = CHR 0x20 \<or> c = CHR 0xA0)"

definition trim :: "string \<Rightarrow> string" where
  "trim s = rev (dropWhile is_js_space (rev (dropWhile is_js_space s)))"

text \<open>\<^verbatim>\<open>s.split(',')\<close>: the pieces between commas, at least one.\<close>

fun split_comma :: "string \<Rightarrow> string list" where
  "split_comma [] = [[]]"
| "split_comma (c # cs) =
     (if c = CHR '','' then [] # split_comma cs
      else (case split_comma cs of [] \<Rightarrow> [[c]] | x # xs \<Rightarrow> (c # x) # xs))"

text \<open>
  \<^verbatim>\<open>parseInt(s, 10)\<close>: leading white space, an optional sign, then the longest run of
  decimal digits; \<open>None\<close> is \<^verbatim>\<open>NaN\<close>. The result is exact here; JavaScript rounds an integer
  beyond \<open>2^53\<close> to the nearest double.
\<close>

definition parseInt10 :: "string \<Rightarrow> int option" where
  "parseInt10 s =
     (let s1 = dropWhile is_js_space s;
          neg = (case s1 of [] \<Rightarrow> False | c # _ \<Rightarrow> c = CHR ''-'');
          s2 = (case s1 of [] \<Rightarrow> [] | c # r \<Rightarrow> if c = CHR ''-'' \<or> c = CHR ''+'' then r else s1);
          ds = takeWhile is_digit s2
      in if ds = [] then None
         else Some (if neg then - int (nat_of_digits ds) else int (nat_of_digits ds)))"

text \<open>\<^verbatim>\<open>x || d\<close> for a text field of the form that may be missing.\<close>

definition or_str :: "string option \<Rightarrow> string \<Rightarrow> string" where
  "or_str x d = (case x of None \<Rightarrow> d | Some s \<Rightarrow> if s = [] then d else s)"

text \<open>
  Paths are kept relative to \<^verbatim>\<open>UPLOADS_DIR\<close>, with \<open>/\<close> as separator:
  \<^verbatim>\<open>path.relative(UPLOADS_DIR, path.join(UPLOADS_DIR, p))\<close> is \<open>p\<close> for the paths the server
  builds (a submission id and a plain file name), and \<^verbatim>\<open>fs.existsSync\<close> of the joined
  path is membership of \<open>p\<close> in the set of existing paths.
\<close>

definition basename :: "string \<Rightarrow> string" where
  "basename p = rev (takeWhile (\<lambda>c. c \<noteq> CHR ''/'') (dropWhile (\<lambda>c. c = CHR ''/'') (rev p)))"

text \<open>
  \<^verbatim>\<open>path.extname\<close>: from the last dot of the base name, unless there is none, it is the
  first character, or the base name is \<^verbatim>\<open>..\<close>.
\<close>

definition extname :: "string \<Rightarrow> string" where
  "extname p =
     (let b = basename p;
          i = length b - Suc (length (takeWhile (\<lambda>c. c \<noteq> CHR ''.'') (rev b)))
      in if CHR ''.'' \<notin> set b \<or> i = 0 \<or> b = ''..'' then [] else drop i b)"

section \<open>The server\<close>

subsection \<open>State, requests, responses\<close>

text \<open>
  The state the handlers touch: the text of \<^verbatim>\<open>data/submissions.json\<close> (\<open>None\<close> when the
  file is missing) and the directories and files that exist under \<^verbatim>\<open>uploads/\<close>.
\<close>

record state =
  db_file :: "string option"
  uploads :: "string set"

record session =
  isAdmin :: bool

datatype source = Data string | File string

text \<open>
  \<open>ServerError\<close> is the answer of Express to an exception no handler catches (status 500);
  \<open>Zip name entries\<close> is an attachment with the archive's entries in the order they
  were added, each with its name in the archive.
\<close>

datatype response =
    Json nat json
  | Redirect string
  | SendFile string
  | Text nat string
  | Zip string "(string \<times> source) list"
  | ServerError

subsection \<open>Record store\<close>

definition readDB :: "state \<Rightarrow> json" where
  "readDB st =
     (case db_file st of
        None \<Rightarrow> JArr []
      | Some txt \<Rightarrow> (case JSON_parse txt of None \<Rightarrow> JArr [] | Some v \<Rightarrow> v))"

definition writeDB :: "json \<Rightarrow> state \<Rightarrow> state" where
  "writeDB data st = st\<lparr>db_file := Some (JSON_stringify data)\<rparr>"

text \<open>
  \<^verbatim>\<open>db.find(s => s.id === id)\<close> on the elements of an array: the position of the first
  element whose \<^verbatim>\<open>id\<close> is the string \<open>id\<close>; reading \<^verbatim>\<open>s.id\<close> of a \<^verbatim>\<open>null\<close> element throws.
\<close>

fun find_by_id :: "string \<Rightarrow> json list \<Rightarrow> failure + nat option" where
  "find_by_id ident [] = Inr None"
| "find_by_id ident (s # ss) =
     (case get_prop s ''id'' of
        Inl e \<Rightarrow> Inl e
      | Inr v \<Rightarrow>
          if v = Some (JStr ident) then Inr (Some 0)
          else (case find_by_id ident ss of
                  Inl e \<Rightarrow> Inl e
                | Inr None \<Rightarrow> Inr None
                | Inr (Some i) \<Rightarrow> Inr (Some (Suc i))))"

text \<open>\<^verbatim>\<open>sub.k = v\<close> on a record found by \<open>find_by_id\<close> (always an object).\<close>

fun set_prop :: "string \<Rightarrow> json \<Rightarrow> json \<Rightarrow> json" where
  "set_prop k v (JObj kvs) = JObj (obj_set k v kvs)"
| "set_prop k v x = x"

text \<open>The member \<open>k\<close> of a stored record, for stating properties.\<close>

fun field :: "json \<Rightarrow> string \<Rightarrow> json option" where
  "field (JObj kvs) k = map_of kvs k"
| "field v k = None"

subsection \<open>Authentication\<close>

definition ADMIN_PASS :: "string option \<Rightarrow> string" where
  "ADMIN_PASS env = or_str env ''adminpass''"

text \<open>\<^verbatim>\<open>requireAdmin\<close>: the next handler runs only with a session marked admin.\<close>

definition requireAdmin ::
  "session option \<Rightarrow> (state \<Rightarrow> response \<times> state) \<Rightarrow> state \<Rightarrow> response \<times> state" where
  "requireAdmin sess next st =
     (case sess of
        Some s \<Rightarrow> if isAdmin s then next st else (Redirect ''/admin/login'', st)
      | None \<Rightarrow> (Redirect ''/admin/login'', st))"

text \<open>
  \<^verbatim>\<open>POST /admin/login\<close>: \<open>password\<close> is \<^verbatim>\<open>req.body.password\<close> as the form parser left it
  (a string, or an array or object for bracketed field names, or undefined).
\<close>

definition POST_login ::
  "string option \<Rightarrow> session option \<Rightarrow> json option \<Rightarrow> response \<times> session option" where
  "POST_login env sess password =
     (let pass = or_else password (JStr '''') in
      if pass = JStr (ADMIN_PASS env) then
        (case sess of
           None \<Rightarrow> (ServerError, None)
         | Some s \<Rightarrow> (Redirect ''/admin/dashboard'', Some (s\<lparr>isAdmin := True\<rparr>)))
      else (Redirect ''/admin/login?err=1'', sess))"

subsection \<open>Uploads\<close>

text \<open>
  A file as multer reports it. Its \<open>path\<close> is kept relative to \<^verbatim>\<open>UPLOADS_DIR\<close>; the storage
  puts it in the directory of the submission under its own \<open>originalname\<close>, the plain file
  name the client sent.
\<close>

record multer_file =
  originalname :: string
  path :: string

definition stored_file :: "string \<Rightarrow> string \<Rightarrow> multer_file" where
  "stored_file subId name = \<lparr>originalname = name, path = subId @ ''/'' @ name\<rparr>"

text \<open>
  The text fields and file parts of a \<^verbatim>\<open>POST /submit\<close> request: each text field is a
  string or missing, each file part is given by its (non-empty) file name, per form
  field and in the order sent.
\<close>

record submit_request =
  multipart :: bool
  body_albumName :: "string option"
  body_releaseDate :: "string option"
  body_platforms :: "string option"
  body_numSongs :: "string option"
  body_tracks :: "string option"
  cover_parts :: "string list"
  track_parts :: "string list"

text \<open>\<^verbatim>\<open>req.files\<close> after the middleware: the files of each field (none: the key is absent).\<close>

record req_files =
  cover :: "multer_file list"
  trackFiles :: "multer_file list"

text \<open>
  \<^verbatim>\<open>upload.fields([{cover, maxCount 1}, {trackFiles, maxCount 200}])\<close> with the disk storage:
  a request that is not multipart passes through untouched; a file beyond a field's
  \<open>maxCount\<close> makes multer fail (it removes the files it had written, the directory
  stays); otherwise the directory of the submission exists afterwards (once there is
  a file) and holds every file.
\<close>

definition store_files :: "string \<Rightarrow> string list \<Rightarrow> string set \<Rightarrow> string set" where
  "store_files subId names fs =
     (if names = [] then fs
      else insert subId fs \<union> set (map (\<lambda>n. subId @ ''/'' @ n) names))"

definition upload_fields ::
  "string \<Rightarrow> submit_request \<Rightarrow> state \<Rightarrow> (failure + req_files option) \<times> state" where
  "upload_fields subId req st =
     (if \<not> multipart req then (Inr None, st)
      else if 1 < length (cover_parts req) \<or> 200 < length (track_parts req) then
        (Inl MulterError, st\<lparr>uploads := insert subId (uploads st)\<rparr>)
      else
        (Inr (Some \<lparr>cover = map (stored_file subId) (cover_parts req),
                    trackFiles = map (stored_file subId) (track_parts req)\<rparr>),
         st\<lparr>uploads := store_files subId (cover_parts req @ track_parts req) (uploads st)\<rparr>))"

subsection \<open>Submission ingestion\<close>

text \<open>\<^verbatim>\<open>{...t}\<close>: the own members of \<open>t\<close>; a string or an array spreads by index.\<close>

fun spread :: "json \<Rightarrow> (string \<times> json) list" where
  "spread (JObj kvs) = kvs"
| "spread (JArr xs) = map (\<lambda>(i, x). (show_nat i, x)) (enumerate 0 xs)"
| "spread (JStr s) = map (\<lambda>(i, c). (show_nat i, JStr [c])) (enumerate 0 s)"
| "spread v = []"

definition with_file :: "json \<Rightarrow> json \<Rightarrow> json \<Rightarrow> json" where
  "with_file t f n = JObj (obj_set ''originalFileName'' n (obj_set ''file'' f (spread t)))"

text \<open>
  \<^verbatim>\<open>audioFiles.find(f => f.originalname === (t.fileName || ''))\<close>: the first upload whose
  name is the track's \<^verbatim>\<open>fileName\<close>. The callback reads \<^verbatim>\<open>t.fileName\<close> for each upload it
  looks at, so nothing is read (and nothing thrown) when there is no upload.
\<close>

fun find_upload :: "json \<Rightarrow> multer_file list \<Rightarrow> failure + multer_file option" where
  "find_upload t [] = Inr None"
| "find_upload t (f # fs) =
     (case get_prop t ''fileName'' of
        Inl e \<Rightarrow> Inl e
      | Inr fileName \<Rightarrow>
          if JStr (originalname f) = or_else fileName (JStr '''') then Inr (Some f)
          else find_upload t fs)"

text \<open>
  The callback of \<^verbatim>\<open>tracks.map\<close>: the upload found by name; failing that, the upload at
  the track's own position; failing that, no file.
\<close>

definition track_with_file :: "multer_file list \<Rightarrow> json \<Rightarrow> nat \<Rightarrow> failure + json" where
  "track_with_file audioFiles t idx =
     (case find_upload t audioFiles of
        Inl e \<Rightarrow> Inl e
      | Inr (Some matched) \<Rightarrow>
          Inr (with_file t (JStr (path matched)) (JStr (originalname matched)))
      | Inr None \<Rightarrow>
          if idx < length audioFiles then
            Inr (with_file t (JStr (path (audioFiles ! idx)))
                   (JStr (originalname (audioFiles ! idx))))
          else Inr (with_file t JNull JNull))"

fun map_tracks :: "multer_file list \<Rightarrow> json list \<Rightarrow> nat \<Rightarrow> failure + json list" where
  "map_tracks audioFiles [] idx = Inr []"
| "map_tracks audioFiles (t # ts) idx =
     (case track_with_file audioFiles t idx of
        Inl e \<Rightarrow> Inl e
      | Inr t' \<Rightarrow>
          (case map_tracks audioFiles ts (Suc idx) of
             Inl e \<Rightarrow> Inl e
           | Inr ts' \<Rightarrow> Inr (t' # ts')))"

text \<open>\<^verbatim>\<open>tracks.map(...)\<close>: only an array has \<^verbatim>\<open>map\<close>.\<close>

fun tracksWithFiles :: "json \<Rightarrow> multer_file list \<Rightarrow> failure + json list" where
  "tracksWithFiles (JArr ts) audioFiles = map_tracks audioFiles ts 0"
| "tracksWithFiles v audioFiles = Inl TypeError"

definition numSongs_of :: "string option \<Rightarrow> int" where
  "numSongs_of x = (case parseInt10 (or_str x ''0'') of None \<Rightarrow> 0 | Some n \<Rightarrow> n)"

definition platforms_of :: "string option \<Rightarrow> string list" where
  "platforms_of x = filter (\<lambda>s. s \<noteq> []) (map trim (split_comma (or_str x '''')))"

definition submission ::
  "string \<Rightarrow> string \<Rightarrow> submit_request \<Rightarrow> multer_file list \<Rightarrow> json list \<Rightarrow> json" where
  "submission subId now req covers tracks =
     JObj [(''id'', JStr subId),
           (''albumName'', JStr (trim (or_str (body_albumName req) ''''))),
           (''releaseDate'', JStr (or_str (body_releaseDate req) '''')),
           (''platforms'', JArr (map JStr (platforms_of (body_platforms req)))),
           (''numSongs'', JNum (numSongs_of (body_numSongs req))),
           (''cover'', (case covers of [] \<Rightarrow> JNull | f # _ \<Rightarrow> JStr (path f))),
           (''tracks'', JArr tracks),
           (''createdAt'', JStr now),
           (''status'', JStr ''pending''),
           (''adminNote'', JNull)]"

definition internal_error :: response where
  "internal_error = Json 500 (JObj [(''error'', JStr ''Internal server error'')])"

definition received :: "string \<Rightarrow> response" where
  "received subId =
     Json 200 (JObj [(''ok'', JBool True), (''id'', JStr subId),
                     (''message'', JStr ''Submission received. Admin will review.'')])"

text \<open>
  The handler of \<^verbatim>\<open>POST /submit\<close>, after the middleware. \<open>subId\<close> is the identifier
  \<^verbatim>\<open>uuidv4()\<close> produced for the request, \<open>now\<close> the time stamp. Every exception is caught and
  answered with status 500.
\<close>

definition submit_handler ::
  "string \<Rightarrow> string \<Rightarrow> submit_request \<Rightarrow> req_files option \<Rightarrow> state \<Rightarrow> response \<times> state" where
  "submit_handler subId now req files st =
     (case JSON_parse (or_str (body_tracks req) ''[]'') of
        None \<Rightarrow> (Json 400 (JObj [(''error'', JStr ''Invalid tracks metadata'')]), st)
      | Some tracks \<Rightarrow>
          (case files of
             None \<Rightarrow> (internal_error, st)
           | Some fs \<Rightarrow>
               (case tracksWithFiles tracks (trackFiles fs) of
                  Inl e \<Rightarrow> (internal_error, st)
                | Inr tw \<Rightarrow>
                    (case readDB st of
                       JArr db \<Rightarrow>
                         (received subId,
                          writeDB (JArr (db @ [submission subId now req (cover fs) tw])) st)
                     | _ \<Rightarrow> (internal_error, st)))))"

definition POST_submit :: "string \<Rightarrow> string \<Rightarrow> submit_request \<Rightarrow> state \<Rightarrow> response \<times> state" where
  "POST_submit subId now req st =
     (case upload_fields subId req st of
        (Inl e, st') \<Rightarrow> (ServerError, st')
      | (Inr files, st') \<Rightarrow> submit_handler subId now req files st')"

subsection \<open>Review workflow\<close>

definition not_found :: response where
  "not_found = Json 404 (JObj [(''error'', JStr ''Not found'')])"

definition GET_dashboard :: "session option \<Rightarrow> state \<Rightarrow> response \<times> state" where
  "GET_dashboard sess = requireAdmin sess (\<lambda>st. (SendFile ''public/admin-dashboard.html'', st))"

definition GET_submissions :: "session option \<Rightarrow> state \<Rightarrow> response \<times> state" where
  "GET_submissions sess = requireAdmin sess (\<lambda>st. (Json 200 (readDB st), st))"

definition GET_submission :: "session option \<Rightarrow> string \<Rightarrow> state \<Rightarrow> response \<times> state" where
  "GET_submission sess ident =
     requireAdmin sess (\<lambda>st.
       case readDB st of
         JArr db \<Rightarrow>
           (case find_by_id ident db of
              Inl e \<Rightarrow> (ServerError, st)
            | Inr None \<Rightarrow> (not_found, st)
            | Inr (Some i) \<Rightarrow> (Json 200 (db ! i), st))
       | _ \<Rightarrow> (ServerError, st))"

text \<open>
  The two review handlers differ in the status they write. \<open>note\<close> is \<^verbatim>\<open>req.body.note\<close>
  (undefined when the body has none).
\<close>

definition transition :: "string \<Rightarrow> string \<Rightarrow> json option \<Rightarrow> state \<Rightarrow> response \<times> state" where
  "transition status ident note st =
     (case readDB st of
        JArr db \<Rightarrow>
          (case find_by_id ident db of
             Inl e \<Rightarrow> (ServerError, st)
           | Inr None \<Rightarrow> (not_found, st)
           | Inr (Some i) \<Rightarrow>
               (Json 200 (JObj [(''ok'', JBool True)]),
                writeDB (JArr (db[i := set_prop ''adminNote'' (or_else note JNull)
                                         (set_prop ''status'' (JStr status) (db ! i))])) st))
      | _ \<Rightarrow> (ServerError, st))"

definition POST_approve ::
  "session option \<Rightarrow> string \<Rightarrow> json option \<Rightarrow> state \<Rightarrow> response \<times> state" where
  "POST_approve sess ident note = requireAdmin sess (transition ''approved'' ident note)"

definition POST_reject ::
  "session option \<Rightarrow> string \<Rightarrow> json option \<Rightarrow> state \<Rightarrow> response \<times> state" where
  "POST_reject sess ident note = requireAdmin sess (transition ''rejected'' ident note)"

subsection \<open>Archive export\<close>

text \<open>\<^verbatim>\<open>s.replace(/[^a-z0-9_\-\.]/gi, '_')\<close>.\<close>

definition keep_char :: "char \<Rightarrow> bool" where
  "keep_char c =
     (let n = (of_char c :: nat) in
      (97 \<le> n \<and> n \<le> 122) \<or> (65 \<le> n \<and> n \<le> 90) \<or> (48 \<le> n \<and> n \<le> 57)
      \<or> c = CHR ''_'' \<or> c = CHR ''-'' \<or> c = CHR ''.'')"

definition sanitize :: "string \<Rightarrow> string" where
  "sanitize s = map (\<lambda>c. if keep_char c then c else CHR ''_'') s"

text \<open>
  A value used where a string is required (\<^verbatim>\<open>replace\<close>, \<^verbatim>\<open>path.join\<close>, the name of an
  archive entry): any other value is a failure.
\<close>

fun as_string :: "json \<Rightarrow> failure + string" where
  "as_string (JStr s) = Inr s"
| "as_string v = Inl TypeError"

text \<open>The archive entry of the cover: none unless \<^verbatim>\<open>sub.cover\<close> is set and the file exists.\<close>

definition cover_entries :: "string set \<Rightarrow> json \<Rightarrow> failure + (string \<times> source) list" where
  "cover_entries fs sub =
     (case get_prop sub ''cover'' of
        Inl e \<Rightarrow> Inl e
      | Inr c \<Rightarrow>
          if truthy (or_else c JNull) then
            (case as_string (or_else c JNull) of
               Inl e \<Rightarrow> Inl e
             | Inr p \<Rightarrow> if p \<in> fs then Inr [(basename p, File p)] else Inr [])
          else Inr [])"

text \<open>The archive entry of the track at position \<open>idx\<close> (from 0).\<close>

definition track_entries :: "string set \<Rightarrow> json \<Rightarrow> nat \<Rightarrow> failure + (string \<times> source) list" where
  "track_entries fs t idx =
     (case get_prop t ''file'' of
        Inl e \<Rightarrow> Inl e
      | Inr f \<Rightarrow>
          if truthy (or_else f JNull) then
            (case as_string (or_else f JNull) of
               Inl e \<Rightarrow> Inl e
             | Inr full \<Rightarrow>
                 if full \<in> fs then
                   (case get_prop t ''originalFileName'' of
                      Inl e \<Rightarrow> Inl e
                    | Inr n \<Rightarrow>
                        (case as_string (or_else n (JStr (''track-'' @ show_nat (idx + 1) @ extname full))) of
                           Inl e \<Rightarrow> Inl e
                         | Inr name \<Rightarrow> Inr [(name, File full)]))
                 else Inr [])
          else Inr [])"

fun tracks_entries ::
  "string set \<Rightarrow> json list \<Rightarrow> nat \<Rightarrow> failure + (string \<times> source) list" where
  "tracks_entries fs [] idx = Inr []"
| "tracks_entries fs (t # ts) idx =
     (case track_entries fs t idx of
        Inl e \<Rightarrow> Inl e
      | Inr es \<Rightarrow>
          (case tracks_entries fs ts (Suc idx) of
             Inl e \<Rightarrow> Inl e
           | Inr es' \<Rightarrow> Inr (es @ es')))"

text \<open>
  \<^verbatim>\<open>GET /admin/download/:id\<close>, for the record \<open>sub\<close> that was found: the attachment's name,
  then the metadata, the cover and the tracks. An exception on the way (a \<^verbatim>\<open>tracks\<close> member
  that is no array, a path that is no string) is not caught by the handler.
\<close>

definition export :: "string set \<Rightarrow> string \<Rightarrow> json \<Rightarrow> response" where
  "export fs ident sub =
     (if ident \<notin> fs then Text 404 ''Files missing''
      else
        (case as_string (or_else (field sub ''albumName'') (JStr ident)) of
           Inl e \<Rightarrow> ServerError
         | Inr name \<Rightarrow>
             (case cover_entries fs sub of
                Inl e \<Rightarrow> ServerError
              | Inr ce \<Rightarrow>
                  (case field sub ''tracks'' of
                     Some (JArr ts) \<Rightarrow>
                       (case tracks_entries fs ts 0 of
                          Inl e \<Rightarrow> ServerError
                        | Inr te \<Rightarrow>
                            Zip (sanitize name @ ''.zip'')
                              ((''metadata.json'', Data (JSON_stringify sub)) # ce @ te))
                   | _ \<Rightarrow> ServerError))))"

definition GET_download :: "session option \<Rightarrow> string \<Rightarrow> state \<Rightarrow> response \<times> state" where
  "GET_download sess ident =
     requireAdmin sess (\<lambda>st.
       case readDB st of
         JArr db \<Rightarrow>
           (case find_by_id ident db of
              Inl e \<Rightarrow> (ServerError, st)
            | Inr None \<Rightarrow> (Text 404 ''Not found'', st)
            | Inr (Some i) \<Rightarrow> (export (uploads st) ident (db ! i), st))
       | _ \<Rightarrow> (ServerError, st))"

section \<open>Notions used to state the properties\<close>

text \<open>The record list that is read back from a state, and parts of a stored record.\<close>

definition records :: "state \<Rightarrow> json list" where
  "records st = (case readDB st of JArr db \<Rightarrow> db | _ \<Rightarrow> [])"

definition stored_tracks :: "json \<Rightarrow> json list" where
  "stored_tracks sub = (case field sub ''tracks'' of Some (JArr tw) \<Rightarrow> tw | _ \<Rightarrow> [])"

definition ok_response :: response where
  "ok_response = Json 200 (JObj [(''ok'', JBool True)])"

text \<open>The name a declared track is matched under: \<^verbatim>\<open>t.fileName || ''\<close>.\<close>

definition declared_name :: "json \<Rightarrow> json" where
  "declared_name t = or_else (field t ''fileName'') (JStr '''')"


subsection \<open>The specification's wording\<close>

text \<open>
  The specification's fallback, in its own words: a track without a name match at
  position \<open>i\<close> receives the \<open>i\<close>-th upload of the unmatched upload list (the uploads
  whose name no declared track carries), or no file if none remains.
\<close>

definition spec_unmatched_uploads :: "json list \<Rightarrow> string list \<Rightarrow> string list" where
  "spec_unmatched_uploads ts names =
     filter (\<lambda>n. list_all (\<lambda>t. declared_name t \<noteq> JStr n) ts) names"

definition spec_fallback_file :: "string \<Rightarrow> json list \<Rightarrow> string list \<Rightarrow> nat \<Rightarrow> json" where
  "spec_fallback_file subId ts names i =
     (let u = spec_unmatched_uploads ts names
      in if i < length u then JStr (subId @ ''/'' @ u ! i) else JNull)"



subsection \<open>A small scenario\<close>

text \<open>
  A store with two records, an admin session, and a submission of two tracks with two
  audio uploads and a cover; the concrete instances below are taken on these.
\<close>

definition demo_records :: "json list" where
  "demo_records =
     [JObj [(''id'', JStr ''a''), (''numSongs'', JNum 2), (''status'', JStr ''pending''),
            (''adminNote'', JNull)],
      JObj [(''id'', JStr ''b''), (''numSongs'', JNum 1), (''status'', JStr ''rejected''),
            (''adminNote'', JStr ''no'')]]"

definition demo_state :: state where
  "demo_state = \<lparr>db_file = Some (JSON_stringify (JArr demo_records)), uploads = {}\<rparr>"

definition admin :: "session option" where
  "admin = Some \<lparr>isAdmin = True\<rparr>"

definition demo_tracks :: "json list" where
  "demo_tracks =
     [JObj [(''title'', JStr ''B''), (''fileName'', JStr ''b.mp3'')],
      JObj [(''title'', JStr ''X'')]]"

definition demo_request :: submit_request where
  "demo_request =
     \<lparr>multipart = True,
      body_albumName = Some ''Test'',
      body_releaseDate = Some ''2024-05-01'',
      body_platforms = Some ''spotify, tidal'',
      body_numSongs = Some ''3.7'',
      body_tracks = Some (JSON_stringify (JArr demo_tracks)),
      cover_parts = [''c.png''],
      track_parts = [''a.mp3'', ''b.mp3'']\<rparr>"



section \<open>Properties of the JSON text functions\<close>

subsection \<open>Numbers\<close>

lemma digit_char_digit: "d < 10 \<Longrightarrow> is_digit (digit_char d)"
proof -
  assume "d < 10"
  then have "d \<in> {0, 1, 2, 3, 4, 5, 6, 7, 8, 9}" by auto
  then show ?thesis by (auto simp: digit_char_def is_digit_def)
qed

lemma digit_val_digit_char: "d < 10 \<Longrightarrow> digit_val (digit_char d) = d"
proof -
  assume "d < 10"
  then have "d \<in> {0, 1, 2, 3, 4, 5, 6, 7, 8, 9}" by auto
  then show ?thesis by (auto simp: digit_char_def digit_val_def)
qed

lemma digit_char_zero: "d < 10 \<Longrightarrow> digit_char d = CHR ''0'' \<Longrightarrow> d = 0"
proof -
  assume "d < 10" and z: "digit_char d = CHR ''0''"
  then have "d \<in> {0, 1, 2, 3, 4, 5, 6, 7, 8, 9}" by auto
  with z show ?thesis by (auto simp: digit_char_def)
qed

lemma show_nat_not_Nil: "show_nat n \<noteq> []"
  by (subst show_nat.simps) simp

lemma show_nat_digits: "c \<in> set (show_nat n) \<Longrightarrow> is_digit c"
proof (induction n arbitrary: c rule: show_nat.induct)
  case (1 n)
  show ?case
  proof (cases "n < 10")
    case True
    with "1.prems" show ?thesis
      by (subst (asm) show_nat.simps) (simp add: digit_char_digit)
  next
    case False
    with "1.prems" have "c \<in> set (show_nat (n div 10)) \<or> c = digit_char (n mod 10)"
      by (subst (asm) show_nat.simps) auto
    with False "1.IH" show ?thesis
      by (auto simp: digit_char_digit)
  qed
qed

lemma nat_of_digits_snoc: "nat_of_digits (ds @ [c]) = 10 * nat_of_digits ds + digit_val c"
  by (simp add: nat_of_digits_def)

lemma nat_of_digits_show_nat: "nat_of_digits (show_nat n) = n"
proof (induction n rule: show_nat.induct)
  case (1 n)
  show ?case
  proof (cases "n < 10")
    case True
    then show ?thesis
      by (subst show_nat.simps) (simp add: nat_of_digits_def digit_val_digit_char)
  next
    case False
    with "1.IH" have "nat_of_digits (show_nat (n div 10)) = n div 10" by simp
    with False show ?thesis
      by (subst show_nat.simps) (simp add: nat_of_digits_snoc digit_val_digit_char)
  qed
qed

lemma show_nat_hd: "0 < n \<Longrightarrow> hd (show_nat n) \<noteq> CHR ''0''"
proof (induction n rule: show_nat.induct)
  case (1 n)
  show ?case
  proof (cases "n < 10")
    case True
    with "1.prems" show ?thesis
      by (subst show_nat.simps) (auto dest: digit_char_zero)
  next
    case False
    then have "0 < n div 10" by simp
    with False "1.IH" have "hd (show_nat (n div 10)) \<noteq> CHR ''0''" by simp
    with False show ?thesis
      by (subst show_nat.simps) (simp add: show_nat_not_Nil)
  qed
qed

lemma show_nat_single: "show_nat 0 = ''0''"
  by (subst show_nat.simps) (simp add: digit_char_def)

lemma show_nat_leading: "\<not> (hd (show_nat n) = CHR ''0'' \<and> 1 < length (show_nat n))"
proof (cases "n = 0")
  case True
  then show ?thesis by (simp add: show_nat_single)
next
  case False
  then show ?thesis using show_nat_hd [of n] by simp
qed

lemma sep_start_not_digit: "sep_start rest \<Longrightarrow> takeWhile is_digit rest = [] \<and> dropWhile is_digit rest = rest"
  by (cases rest) (auto simp: sep_start_def is_digit_def)

lemma takeWhile_digits:
  assumes "sep_start rest"
  shows "takeWhile is_digit (show_nat n @ rest) = show_nat n"
proof -
  have "takeWhile is_digit (show_nat n @ rest) = show_nat n @ takeWhile is_digit rest"
    by (rule takeWhile_append2) (rule show_nat_digits)
  with sep_start_not_digit [OF assms] show ?thesis by simp
qed

lemma dropWhile_digits:
  assumes "sep_start rest"
  shows "dropWhile is_digit (show_nat n @ rest) = rest"
proof -
  have "dropWhile is_digit (show_nat n @ rest) = dropWhile is_digit rest"
    by (rule dropWhile_append2) (rule show_nat_digits)
  with sep_start_not_digit [OF assms] show ?thesis by simp
qed

lemma minus_not_digit: "\<not> is_digit CHR ''-''"
  by (simp add: is_digit_def)

lemma parse_number_show_int:
  assumes "sep_start rest"
  shows "parse_number (show_int i @ rest) = Some (JNum i, rest)"
proof (cases "i < 0")
  case True
  have "parse_number (CHR ''-'' # show_nat (nat (- i)) @ rest) = Some (JNum i, rest)"
    using assms True show_nat_leading [of "nat (- i)"]
    apply (simp add: parse_number_def takeWhile_digits dropWhile_digits show_nat_not_Nil
        nat_of_digits_show_nat Let_def)
    apply (cases rest; simp add: sep_start_def)
    apply auto
    done
  with True show ?thesis by (simp add: show_int_def)
next
  case False
  obtain c cs where sn: "show_nat (nat i) = c # cs"
    using show_nat_not_Nil [of "nat i"] by (cases "show_nat (nat i)") auto
  have "c \<noteq> CHR ''-''"
    using show_nat_digits [of c "nat i"] sn minus_not_digit by auto
  then have "parse_number (show_nat (nat i) @ rest) = Some (JNum i, rest)"
    using assms False show_nat_leading [of "nat i"] sn
      takeWhile_digits [OF assms, of "nat i"] dropWhile_digits [OF assms, of "nat i"]
      nat_of_digits_show_nat [of "nat i"]
    apply (simp add: parse_number_def Let_def)
    apply (cases rest; simp add: sep_start_def)
    apply auto
    done
  with False show ?thesis by (simp add: show_int_def)
qed

subsection \<open>Strings\<close>

lemma hex_val_digit_char: "d < 16 \<Longrightarrow> hex_val (digit_char d) = Some d"
proof -
  assume "d < 16"
  then have "d = 0 \<or> d = 1 \<or> d = 2 \<or> d = 3 \<or> d = 4 \<or> d = 5 \<or> d = 6 \<or> d = 7 \<or> d = 8
      \<or> d = 9 \<or> d = 10 \<or> d = 11 \<or> d = 12 \<or> d = 13 \<or> d = 14 \<or> d = 15" by arith
  then show ?thesis by (auto simp: digit_char_def hex_val_def)
qed

lemma hex4_hex2:
  assumes "(of_char c :: nat) < 32"
  shows "hex4 CHR ''0'' CHR ''0'' (digit_char ((of_char c :: nat) div 16))
           (digit_char ((of_char c :: nat) mod 16)) = Some c"
proof -
  let ?n = "of_char c :: nat"
  have a: "hex_val (digit_char (?n div 16)) = Some (?n div 16)"
    using assms by (intro hex_val_digit_char) simp
  have b: "hex_val (digit_char (?n mod 16)) = Some (?n mod 16)"
    by (intro hex_val_digit_char) simp
  have z: "hex_val CHR ''0'' = Some 0" by (simp add: hex_val_def)
  show ?thesis using assms by (simp add: hex4_def a b z)
qed

lemma parse_chars_escape: "parse_chars (escape_char c @ t) = cons_fst c (parse_chars t)"
proof -
  consider (special) "c \<in> {CHR 0x22, CHR 0x5C, CHR 0x08, CHR 0x0C, CHR 0x0A, CHR 0x0D, CHR 0x09}"
    | (ctl) "c \<notin> {CHR 0x22, CHR 0x5C, CHR 0x08, CHR 0x0C, CHR 0x0A, CHR 0x0D, CHR 0x09}"
        "(of_char c :: nat) < 32"
    | (plain) "c \<notin> {CHR 0x22, CHR 0x5C, CHR 0x08, CHR 0x0C, CHR 0x0A, CHR 0x0D, CHR 0x09}"
        "\<not> (of_char c :: nat) < 32"
    by blast
  then show ?thesis
  proof cases
    case special
    then show ?thesis by (auto simp: escape_char_def unescape_def)
  next
    case ctl
    then show ?thesis by (simp add: escape_char_def hex2_def hex4_hex2)
  next
    case plain
    then show ?thesis by (simp add: escape_char_def)
  qed
qed

lemma parse_chars_quote:
  "parse_chars (concat (map escape_char s) @ CHR 0x22 # rest) = Some (s, rest)"
  by (induction s) (simp_all add: parse_chars_escape cons_fst_def)

lemma parse_chars_quoted: "parse_chars (tl (quote s) @ rest) = Some (s, rest)"
  by (simp add: quote_def parse_chars_quote)

lemma quote_Cons: "quote s = CHR 0x22 # tl (quote s)"
  by (simp add: quote_def)

subsection \<open>White space\<close>

lemma skip_ws_nonws: "\<not> is_ws c \<Longrightarrow> skip_ws (c # s) = c # s"
  by (simp add: skip_ws_def)

lemma skip_ws_indent: "skip_ws (indent d @ s) = skip_ws s"
proof -
  have "\<And>x. x \<in> set (indent d) \<Longrightarrow> is_ws x" by (auto simp: indent_def is_ws_def)
  then show ?thesis unfolding skip_ws_def by (rule dropWhile_append2)
qed

lemma skip_ws_nl_indent: "skip_ws (CHR 0x0A # indent d @ s) = skip_ws s"
  using skip_ws_indent [of d s] by (simp add: skip_ws_def is_ws_def)

lemma skip_ws_space: "skip_ws (CHR '' '' # s) = skip_ws s"
  by (simp add: skip_ws_def is_ws_def)

lemma is_digit_nonws: "is_digit c \<Longrightarrow> \<not> is_ws c \<and> c \<noteq> CHR '']''"
  by (auto simp: is_digit_def is_ws_def)

lemma show_int_nonws: "\<exists>c s. show_int i = c # s \<and> \<not> is_ws c \<and> c \<noteq> CHR '']''"
proof (cases "i < 0")
  case True
  then show ?thesis by (simp add: show_int_def is_ws_def)
next
  case False
  obtain c cs where sn: "show_nat (nat i) = c # cs"
    using show_nat_not_Nil [of "nat i"] by (cases "show_nat (nat i)") auto
  then have "is_digit c" using show_nat_digits [of c "nat i"] by simp
  with sn False show ?thesis by (simp add: show_int_def is_digit_nonws)
qed

lemma ser_nonws: "\<exists>c s. ser d v = c # s \<and> \<not> is_ws c \<and> c \<noteq> CHR '']''"
proof (cases v)
  case (JNum i)
  then show ?thesis using show_int_nonws [of i] by simp
qed (auto simp: is_ws_def quote_def)

lemma skip_ws_ser: "skip_ws (ser d v @ s) = ser d v @ s"
  using ser_nonws [of d v] by (auto simp: skip_ws_nonws)

lemma skip_ws_quote: "skip_ws (quote k @ s) = quote k @ s"
  by (simp add: quote_def skip_ws_def is_ws_def)

subsection \<open>Objects\<close>

lemma obj_set_fresh: "k \<notin> fst ` set kvs \<Longrightarrow> obj_set k v kvs = kvs @ [(k, v)]"
  by (induction kvs) auto

lemma foldl_obj_set:
  "distinct (map fst (acc @ kvs)) \<Longrightarrow>
   foldl (\<lambda>kvs (k, v). obj_set k v kvs) acc kvs = acc @ kvs"
proof (induction kvs arbitrary: acc)
  case Nil
  then show ?case by simp
next
  case (Cons kv kvs)
  obtain k v where kv: "kv = (k, v)" by (cases kv)
  from Cons.prems kv have fresh: "k \<notin> fst ` set acc" by auto
  from Cons.prems kv have "distinct (map fst ((acc @ [(k, v)]) @ kvs))" by auto
  then have "foldl (\<lambda>kvs (k, v). obj_set k v kvs) (acc @ [(k, v)]) kvs = (acc @ [(k, v)]) @ kvs"
    by (rule Cons.IH)
  with fresh kv show ?case by (simp add: obj_set_fresh)
qed

lemma obj_of_members_distinct: "distinct (map fst kvs) \<Longrightarrow> obj_of_members kvs = kvs"
  using foldl_obj_set [of "[]" kvs] by (simp add: obj_of_members_def)

subsection \<open>Values\<close>

lemma sep_start_simps:
  "sep_start (CHR '','' # s)" "sep_start (CHR 0x0A # s)" "sep_start []"
  by (simp_all add: sep_start_def)

lemma parse_elements_ser:
  assumes "xs \<noteq> []"
    and "\<And>x n rest. x \<in> set xs \<Longrightarrow> size x < n \<Longrightarrow> sep_start rest
           \<Longrightarrow> parse_value n (ser d x @ rest) = Some (x, rest)"
    and "size_list size xs < n"
  shows "parse_elements n
           (join (CHR '','' # CHR 0x0A # indent d) (map (ser d) xs)
              @ CHR 0x0A # indent d' @ CHR '']'' # rest) = Some (xs, rest)"
  using assms
proof (induction xs arbitrary: n rule: list_nonempty_induct)
  case (single x)
  from single.prems(2) obtain m where n: "n = Suc m" and m: "size x < m"
    by (cases n) auto
  have "parse_value m (ser d x @ CHR 0x0A # indent d' @ CHR '']'' # rest)
          = Some (x, CHR 0x0A # indent d' @ CHR '']'' # rest)"
    by (rule single.prems(1)) (simp_all add: m sep_start_simps)
  then show ?case
    by (simp add: n skip_ws_nl_indent skip_ws_nonws is_ws_def)
next
  case (cons x xs)
  from cons.prems(2) obtain m where n: "n = Suc m" and m: "size x < m" "size_list size xs < m"
    by (cases n) auto
  obtain y ys where xs: "xs = y # ys" using cons.hyps by (cases xs) auto
  let ?tail = "join (CHR '','' # CHR 0x0A # indent d) (map (ser d) xs)
                 @ CHR 0x0A # indent d' @ CHR '']'' # rest"
  have tail: "parse_elements m ?tail = Some (xs, rest)"
    by (rule cons.IH) (auto simp: m intro: cons.prems(1))
  have nonws: "skip_ws ?tail = ?tail"
    using skip_ws_ser [of d y] by (cases ys) (simp_all add: xs)
  have "parse_value m (ser d x @ CHR '','' # CHR 0x0A # indent d @ ?tail)
          = Some (x, CHR '','' # CHR 0x0A # indent d @ ?tail)"
    by (rule cons.prems(1)) (simp_all add: m sep_start_simps)
  then show ?case
    using tail nonws
    by (simp add: n xs skip_ws_nl_indent skip_ws_nonws is_ws_def cons_fst_def)
qed

lemma parse_members_ser:
  assumes "kvs \<noteq> []"
    and "\<And>k v n rest. (k, v) \<in> set kvs \<Longrightarrow> size v < n \<Longrightarrow> sep_start rest
           \<Longrightarrow> parse_value n (ser d v @ rest) = Some (v, rest)"
    and "size_list (size_prod (\<lambda>x. 0) size) kvs < n"
  shows "parse_members n
           (join (CHR '','' # CHR 0x0A # indent d) (map (\<lambda>(k, v). quote k @ '': '' @ ser d v) kvs)
              @ CHR 0x0A # indent d' @ CHR ''}'' # rest) = Some (kvs, rest)"
  using assms
proof (induction kvs arbitrary: n rule: list_nonempty_induct)
  case (single kv)
  obtain k v where kv: "kv = (k, v)" by (cases kv)
  from single.prems(2) kv obtain m where n: "n = Suc m" and m: "size v < m"
    by (cases n) auto
  have "parse_value m (ser d v @ CHR 0x0A # indent d' @ CHR ''}'' # rest)
          = Some (v, CHR 0x0A # indent d' @ CHR ''}'' # rest)"
    by (rule single.prems(1)) (simp_all add: kv m sep_start_simps)
  then show ?case
    by (simp add: n kv quote_def parse_chars_quote skip_ws_nl_indent skip_ws_nonws
        skip_ws_space skip_ws_ser is_ws_def)
next
  case (cons kv kvs)
  obtain k v where kv: "kv = (k, v)" by (cases kv)
  from cons.prems(2) kv obtain m where n: "n = Suc m"
    and m: "size v < m" "size_list (size_prod (\<lambda>x. 0) size) kvs < m"
    by (cases n) auto
  obtain kv' kvs' where kvs: "kvs = kv' # kvs'" using cons.hyps by (cases kvs) auto
  obtain k' v' where kv': "kv' = (k', v')" by (cases kv')
  let ?tail = "join (CHR '','' # CHR 0x0A # indent d) (map (\<lambda>(k, v). quote k @ '': '' @ ser d v) kvs)
                 @ CHR 0x0A # indent d' @ CHR ''}'' # rest"
  have tail: "parse_members m ?tail = Some (kvs, rest)"
    by (rule cons.IH) (auto simp: m intro: cons.prems(1))
  have nonws: "skip_ws ?tail = ?tail"
    by (cases kvs') (simp_all add: kvs kv' quote_def skip_ws_def is_ws_def)
  have "parse_value m (ser d v @ CHR '','' # CHR 0x0A # indent d @ ?tail)
          = Some (v, CHR '','' # CHR 0x0A # indent d @ ?tail)"
    by (rule cons.prems(1) [of k]) (simp_all add: kv m sep_start_simps)
  then show ?case
    using tail nonws
    by (simp add: n kv kvs quote_def parse_chars_quote skip_ws_nl_indent skip_ws_nonws
        skip_ws_space skip_ws_ser is_ws_def cons_fst_def)
qed

lemma join_ser_hd:
  assumes "xs \<noteq> []"
  shows "\<exists>c s. join sep (map (ser d) xs) @ t = c # s \<and> \<not> is_ws c \<and> c \<noteq> CHR '']''"
proof -
  obtain y ys where xs: "xs = y # ys" using assms by (cases xs) auto
  obtain c s where "ser d y = c # s" "\<not> is_ws c" "c \<noteq> CHR '']''"
    using ser_nonws [of d y] by blast
  then show ?thesis by (cases ys) (simp_all add: xs)
qed

lemma join_member_hd:
  assumes "kvs \<noteq> []"
  shows "\<exists>s. join sep (map (\<lambda>(k, v). quote k @ '': '' @ ser d v) kvs) @ t = CHR 0x22 # s"
proof -
  obtain y ys where kvs: "kvs = y # ys" using assms by (cases kvs) auto
  then show ?thesis by (cases ys; cases y) (simp_all add: quote_def)
qed

lemma parse_value_ser:
  "wf_json v \<Longrightarrow> size v < n \<Longrightarrow> sep_start rest
   \<Longrightarrow> parse_value n (ser d v @ rest) = Some (v, rest)"
proof (induction v arbitrary: n d rest)
  case JNull
  then show ?case by (cases n) (simp_all add: strip_prefix_def)
next
  case (JBool b)
  then show ?case by (cases n) (simp_all add: strip_prefix_def)
next
  case (JNum i)
  then obtain m where n: "n = Suc m" by (cases n) auto
  obtain c s where c: "show_int i = c # s" using show_int_nonws [of i] by blast
  have "c = CHR ''-'' \<or> is_digit c"
  proof (cases "i < 0")
    case True
    with c show ?thesis by (simp add: show_int_def)
  next
    case False
    with c have "c \<in> set (show_nat (nat i))" by (simp add: show_int_def)
    then show ?thesis by (simp add: show_nat_digits)
  qed
  then have "c \<notin> {CHR ''['', CHR ''{'', CHR 0x22, CHR ''n'', CHR ''t'', CHR ''f''}"
    by (auto simp: is_digit_def)
  moreover have "parse_number (c # s @ rest) = Some (JNum i, rest)"
    using parse_number_show_int [OF JNum.prems(3), of i] c by simp
  ultimately show ?case by (simp add: n c)
next
  case (JStr str)
  then show ?case by (cases n) (simp_all add: quote_def parse_chars_quote)
next
  case (JArr xs)
  from JArr.prems(2) obtain m where n: "n = Suc m" and m: "size_list size xs < m"
    by (cases n) auto
  show ?case
  proof (cases "xs = []")
    case True
    then show ?thesis by (simp add: n skip_ws_nonws is_ws_def)
  next
    case False
    let ?T = "join (CHR '','' # CHR 0x0A # indent (Suc d)) (map (ser (Suc d)) xs)
                @ CHR 0x0A # indent d @ CHR '']'' # rest"
    obtain c s where T: "?T = c # s" "\<not> is_ws c" "c \<noteq> CHR '']''"
      using join_ser_hd [OF False] by blast
    have "parse_elements m ?T = Some (xs, rest)"
    proof (rule parse_elements_ser [OF False _ m])
      fix x n' rest'
      assume "x \<in> set xs" "size x < n'" "sep_start rest'"
      with JArr.IH [of x n' rest' "Suc d"] JArr.prems(1)
      show "parse_value n' (ser (Suc d) x @ rest') = Some (x, rest')" by simp
    qed
    then have pe: "parse_elements m (c # s) = Some (xs, rest)" by (simp only: T)
    have "skip_ws (CHR 0x0A # indent (Suc d) @ ?T) = c # s"
      using T(2) by (simp only: skip_ws_nl_indent T(1)) (simp add: skip_ws_nonws)
    with pe T(3) have
      "parse_value (Suc m) (CHR ''['' # CHR 0x0A # indent (Suc d) @ ?T) = Some (JArr xs, rest)"
      by simp
    with False show ?thesis by (simp add: n)
  qed
next
  case (JObj kvs)
  from JObj.prems(2) obtain m where n: "n = Suc m"
    and m: "size_list (size_prod (\<lambda>x. 0) size) kvs < m"
    by (cases n) auto
  from JObj.prems(1) have dist: "distinct (map fst kvs)" by simp
  show ?case
  proof (cases "kvs = []")
    case True
    then show ?thesis by (simp add: n skip_ws_nonws is_ws_def)
  next
    case False
    let ?T = "join (CHR '','' # CHR 0x0A # indent (Suc d))
                (map (\<lambda>(k, v). quote k @ '': '' @ ser (Suc d) v) kvs)
                @ CHR 0x0A # indent d @ CHR ''}'' # rest"
    obtain s where T: "?T = CHR 0x22 # s"
      using join_member_hd [OF False] by blast
    have "parse_members m ?T = Some (kvs, rest)"
    proof (rule parse_members_ser [OF False _ m])
      fix k v n' rest'
      assume "(k, v) \<in> set kvs" "size v < n'" "sep_start rest'"
      with JObj.IH [of "(k, v)" v n' rest' "Suc d"] JObj.prems(1)
      show "parse_value n' (ser (Suc d) v @ rest') = Some (v, rest')" by force
    qed
    then have pm: "parse_members m (CHR 0x22 # s) = Some (kvs, rest)" by (simp only: T)
    have "skip_ws (CHR 0x0A # indent (Suc d) @ ?T) = CHR 0x22 # s"
      by (simp only: skip_ws_nl_indent T) (simp add: skip_ws_nonws is_ws_def)
    with pm have
      "parse_value (Suc m) (CHR ''{'' # CHR 0x0A # indent (Suc d) @ ?T) = Some (JObj kvs, rest)"
      by (simp add: obj_of_members_distinct [OF dist])
    with False show ?thesis by (simp add: n)
  qed
qed

subsection \<open>The text is long enough to be its own bound\<close>

lemma size_list_le_join:
  assumes "\<And>x. x \<in> set xs \<Longrightarrow> g x < length (f x)"
  shows "size_list g xs \<le> length (join sep (map f xs))"
  using assms
proof (induction xs rule: induct_list012)
  case 1
  then show ?case by simp
next
  case (2 x)
  then have "g x < length (f x)" by simp
  then show ?case by simp
next
  case (3 x y zs)
  then have "g x < length (f x)" and "size_list g (y # zs) \<le> length (join sep (map f (y # zs)))"
    by simp_all
  then show ?case by simp
qed

lemma show_int_not_Nil: "show_int i \<noteq> []"
  by (simp add: show_int_def show_nat_not_Nil)

lemma size_lt_ser: "size v < length (ser d v)"
proof (induction v arbitrary: d)
  case (JNum i)
  then show ?case using show_int_not_Nil [of i] by simp
next
  case (JArr xs)
  have "size_list size xs \<le> length (join sep (map (ser (Suc d)) xs))" for sep
    by (rule size_list_le_join) (rule JArr.IH)
  from this [of "CHR '','' # CHR 0x0A # indent (Suc d)"] show ?case by simp
next
  case (JObj kvs)
  have "size_list (size_prod (\<lambda>x. 0) size) kvs
          \<le> length (join sep (map (\<lambda>(k, v). quote k @ '': '' @ ser (Suc d) v) kvs))" for sep
  proof (rule size_list_le_join)
    fix kv
    assume kv: "kv \<in> set kvs"
    obtain k v where [simp]: "kv = (k, v)" by (cases kv)
    from kv JObj.IH [of kv v "Suc d"] have "size v < length (ser (Suc d) v)" by simp
    then show "size_prod (\<lambda>x. 0) size kv
                 < length ((\<lambda>(k, v). quote k @ '': '' @ ser (Suc d) v) kv)"
      by (simp add: quote_def)
  qed
  from this [of "CHR '','' # CHR 0x0A # indent (Suc d)"] show ?case by simp
qed (simp_all add: quote_def)

lemma JSON_parse_stringify: "wf_json v \<Longrightarrow> JSON_parse (JSON_stringify v) = Some v"
proof -
  assume wf: "wf_json v"
  have "parse_value (length (ser 0 v)) (ser 0 v @ []) = Some (v, [])"
    using wf size_lt_ser by (rule parse_value_ser) (simp add: sep_start_def)
  then show ?thesis
    using skip_ws_ser [of 0 v "[]"]
    by (simp add: JSON_parse_def JSON_stringify_def skip_ws_def [of "[]"])
qed

subsection \<open>What the parser returns is well formed\<close>

lemma obj_set_keys: "fst ` set (obj_set k v kvs) = insert k (fst ` set kvs)"
  by (induction kvs) (force split: if_splits)+

lemma obj_set_distinct: "distinct (map fst kvs) \<Longrightarrow> distinct (map fst (obj_set k v kvs))"
  by (induction kvs) (auto simp: obj_set_keys)

lemma obj_set_values: "kv \<in> set (obj_set k v kvs) \<Longrightarrow> kv = (k, v) \<or> kv \<in> set kvs"
  by (induction kvs) (auto split: if_splits)

lemma foldl_obj_set_wf:
  assumes "distinct (map fst acc)" "\<forall>kv\<in>set acc. wf_json (snd kv)" "\<forall>kv\<in>set ms. wf_json (snd kv)"
  shows "distinct (map fst (foldl (\<lambda>kvs (k, v). obj_set k v kvs) acc ms))
         \<and> (\<forall>kv\<in>set (foldl (\<lambda>kvs (k, v). obj_set k v kvs) acc ms). wf_json (snd kv))"
  using assms
proof (induction ms arbitrary: acc)
  case Nil
  then show ?case by simp
next
  case (Cons m ms)
  obtain k v where m: "m = (k, v)" by (cases m)
  have "distinct (map fst (obj_set k v acc))"
    using Cons.prems(1) by (rule obj_set_distinct)
  moreover have "\<forall>kv\<in>set (obj_set k v acc). wf_json (snd kv)"
    using Cons.prems(2,3) m by (auto dest: obj_set_values)
  moreover have "\<forall>kv\<in>set ms. wf_json (snd kv)" using Cons.prems(3) by simp
  ultimately show ?case using Cons.IH [of "obj_set k v acc"] by (simp add: m)
qed

lemma obj_of_members_distinct_keys: "distinct (map fst (obj_of_members ms))"
proof -
  have "distinct (map fst (foldl (\<lambda>kvs (k, v). obj_set k v kvs) acc ms))"
    if "distinct (map fst acc)" for acc
    using that
  proof (induction ms arbitrary: acc)
    case Nil
    then show ?case by simp
  next
    case (Cons m ms)
    then show ?case by (cases m) (simp add: obj_set_distinct)
  qed
  from this [of "[]"] show ?thesis by (simp add: obj_of_members_def)
qed

lemma obj_of_members_wf:
  "\<forall>kv\<in>set ms. wf_json (snd kv) \<Longrightarrow> kv \<in> set (obj_of_members ms) \<Longrightarrow> wf_json (snd kv)"
  using foldl_obj_set_wf [of "[]" ms] by (simp add: obj_of_members_def)

lemma parse_number_wf: "parse_number s = Some (v, r) \<Longrightarrow> wf_json v"
  by (auto simp: parse_number_def Let_def split: if_splits)

lemma parse_wf_aux:
  "(\<forall>s v r. parse_value n s = Some (v, r) \<longrightarrow> wf_json v)
   \<and> (\<forall>s vs r. parse_elements n s = Some (vs, r) \<longrightarrow> (\<forall>v\<in>set vs. wf_json v))
   \<and> (\<forall>s ms r. parse_members n s = Some (ms, r) \<longrightarrow> (\<forall>kv\<in>set ms. wf_json (snd kv)))"
proof (induction n)
  case 0
  show ?case by simp
next
  case (Suc n)
  from Suc.IH have IHv: "\<And>s v r. parse_value n s = Some (v, r) \<Longrightarrow> wf_json v"
    and IHe: "\<And>s vs r x. parse_elements n s = Some (vs, r) \<Longrightarrow> x \<in> set vs \<Longrightarrow> wf_json x"
    and IHm: "\<And>s ms r. parse_members n s = Some (ms, r) \<Longrightarrow> \<forall>kv\<in>set ms. wf_json (snd kv)"
    by blast+
  have IHm': "\<And>s ms r k v. parse_members n s = Some (ms, r) \<Longrightarrow> (k, v) \<in> set ms \<Longrightarrow> wf_json v"
    using IHm by fastforce
  have v: "wf_json v" if "parse_value (Suc n) s = Some (v, r)" for s v r
  proof (cases s)
    case Nil
    with that show ?thesis by simp
  next
    case (Cons c cs)
    with that show ?thesis
      by (auto split: if_splits list.splits option.splits
          simp: strip_prefix_def obj_of_members_distinct_keys
          dest: parse_number_wf IHe obj_of_members_wf [OF IHm])
  qed
  have e: "\<forall>v\<in>set vs. wf_json v" if "parse_elements (Suc n) s = Some (vs, r)" for s vs r
    using that
    by (auto split: if_splits list.splits option.splits prod.splits simp: cons_fst_def
        dest: IHv IHe)
  have m: "\<forall>kv\<in>set ms. wf_json (snd kv)" if "parse_members (Suc n) s = Some (ms, r)" for s ms r
  proof (cases s)
    case Nil
    with that show ?thesis by simp
  next
    case (Cons c cs)
    with that show ?thesis
      by (auto split: if_splits list.splits option.splits prod.splits simp: cons_fst_def)
        (blast dest: IHv IHm')+
  qed
  from v e m show ?case by blast
qed

lemma parse_value_wf: "parse_value n s = Some (v, r) \<Longrightarrow> wf_json v"
  using parse_wf_aux [of n] by blast

lemma JSON_parse_wf: "JSON_parse s = Some v \<Longrightarrow> wf_json v"
  by (auto simp: JSON_parse_def split: option.splits if_splits dest: parse_value_wf)

subsection \<open>The bound on nested calls is never the reason for a failure\<close>

lemma parse_mono_aux:
  "(\<forall>s x. parse_value n s = Some x \<longrightarrow> parse_value (Suc n) s = Some x)
   \<and> (\<forall>s x. parse_elements n s = Some x \<longrightarrow> parse_elements (Suc n) s = Some x)
   \<and> (\<forall>s x. parse_members n s = Some x \<longrightarrow> parse_members (Suc n) s = Some x)"
proof (induction n)
  case 0
  show ?case by simp
next
  case (Suc n)
  from Suc.IH have IHv: "\<And>s x. parse_value n s = Some x \<Longrightarrow> parse_value (Suc n) s = Some x"
    and IHe: "\<And>s x. parse_elements n s = Some x \<Longrightarrow> parse_elements (Suc n) s = Some x"
    and IHm: "\<And>s x. parse_members n s = Some x \<Longrightarrow> parse_members (Suc n) s = Some x"
    by blast+
  have v: "parse_value (Suc (Suc n)) s = Some x" if h: "parse_value (Suc n) s = Some x" for s x
  proof (cases s)
    case Nil
    with h show ?thesis by simp
  next
    case (Cons c cs)
    consider (arr) "c = CHR ''[''" | (obj) "c \<noteq> CHR ''[''" "c = CHR ''{''"
      | (leaf) "c \<noteq> CHR ''[''" "c \<noteq> CHR ''{''"
      by blast
    then show ?thesis
    proof cases
      case arr
      show ?thesis
      proof (cases "skip_ws cs")
        case Nil
        with h Cons arr show ?thesis by simp
      next
        case (Cons c1 cs1)
        note sk = Cons
        show ?thesis
        proof (cases "c1 = CHR '']''")
          case True
          with h \<open>s = c # cs\<close> arr sk show ?thesis by simp
        next
          case False
          with h \<open>s = c # cs\<close> arr sk obtain vs r
            where t: "parse_elements n (c1 # cs1) = Some (vs, r)" and x: "x = (JArr vs, r)"
            by (auto split: option.splits)
          from IHe [OF t] have t': "parse_elements (Suc n) (c1 # cs1) = Some (vs, r)" .
          have "parse_value (Suc (Suc n)) (c # cs) = Some (JArr vs, r)"
            by (subst parse_value.simps(3))
              (simp del: parse_value.simps parse_elements.simps parse_members.simps
                add: arr sk False t')
          with x \<open>s = c # cs\<close> show ?thesis by (simp only:)
        qed
      qed
    next
      case obj
      show ?thesis
      proof (cases "skip_ws cs")
        case Nil
        with h Cons obj show ?thesis by simp
      next
        case (Cons c1 cs1)
        note sk = Cons
        show ?thesis
        proof (cases "c1 = CHR ''}''")
          case True
          with h \<open>s = c # cs\<close> obj sk show ?thesis by simp
        next
          case False
          with h \<open>s = c # cs\<close> obj sk obtain ms r
            where t: "parse_members n (c1 # cs1) = Some (ms, r)"
              and x: "x = (JObj (obj_of_members ms), r)"
            by (auto split: option.splits)
          from IHm [OF t] have t': "parse_members (Suc n) (c1 # cs1) = Some (ms, r)" .
          have "parse_value (Suc (Suc n)) (c # cs) = Some (JObj (obj_of_members ms), r)"
            by (subst parse_value.simps(3))
              (simp del: parse_value.simps parse_elements.simps parse_members.simps
                add: obj sk False t')
          with x \<open>s = c # cs\<close> show ?thesis by (simp only:)
        qed
      qed
    next
      case leaf
      with h Cons show ?thesis by simp
    qed
  qed
  have e: "parse_elements (Suc (Suc n)) s = Some x" if h: "parse_elements (Suc n) s = Some x" for s x
  proof -
    from h obtain v r where pv: "parse_value n s = Some (v, r)"
      by (auto split: option.splits)
    from IHv [OF pv] have pv': "parse_value (Suc n) s = Some (v, r)" .
    have h': "(case skip_ws r of [] \<Rightarrow> None
               | c # r1 \<Rightarrow>
                   if c = CHR '','' then cons_fst v (parse_elements n (skip_ws r1))
                   else if c = CHR '']'' then Some ([v], r1) else None) = Some x"
      using h pv by simp
    have g: "parse_elements (Suc (Suc n)) s
               = (case skip_ws r of [] \<Rightarrow> None
                  | c # r1 \<Rightarrow>
                      if c = CHR '','' then cons_fst v (parse_elements (Suc n) (skip_ws r1))
                      else if c = CHR '']'' then Some ([v], r1) else None)"
      by (subst parse_elements.simps(2)) (simp only: pv' option.case prod.case)
    show ?thesis
    proof (cases "skip_ws r")
      case Nil
      with h' show ?thesis by simp
    next
      case (Cons c r1)
      show ?thesis
      proof (cases "c = CHR '',''")
        case True
        with h' Cons obtain vs r' where t: "parse_elements n (skip_ws r1) = Some (vs, r')"
          and x: "x = (v # vs, r')"
          by (auto simp: cons_fst_def split: option.splits)
        from IHe [OF t] have t': "parse_elements (Suc n) (skip_ws r1) = Some (vs, r')" .
        show ?thesis
          unfolding g
          by (simp del: parse_value.simps parse_elements.simps parse_members.simps
              add: Cons True t' x cons_fst_def)
      next
        case False
        with h' Cons show ?thesis
          unfolding g
          by (simp del: parse_value.simps parse_elements.simps parse_members.simps)
      qed
    qed
  qed
  have m: "parse_members (Suc (Suc n)) s = Some x" if h: "parse_members (Suc n) s = Some x" for s x
  proof (cases s)
    case Nil
    with h show ?thesis by simp
  next
    case (Cons q cs)
    from h Cons have q: "q = CHR 0x22" by (auto split: if_splits)
    from h Cons q obtain k r where pc: "parse_chars cs = Some (k, r)"
      by (auto split: option.splits)
    from h Cons pc q obtain r1 where r1: "skip_ws r = CHR '':'' # r1"
      by (auto split: if_splits list.splits)
    from h Cons pc q r1 obtain v r2 where pv: "parse_value n (skip_ws r1) = Some (v, r2)"
      by (auto split: option.splits)
    from IHv [OF pv] have pv': "parse_value (Suc n) (skip_ws r1) = Some (v, r2)" .
    have h': "(case skip_ws r2 of [] \<Rightarrow> None
               | c2 # r3 \<Rightarrow>
                   if c2 = CHR '','' then cons_fst (k, v) (parse_members n (skip_ws r3))
                   else if c2 = CHR ''}'' then Some ([(k, v)], r3) else None) = Some x"
      using h Cons q pc r1 pv by simp
    have g: "parse_members (Suc (Suc n)) (q # cs)
               = (case skip_ws r2 of [] \<Rightarrow> None
                  | c2 # r3 \<Rightarrow>
                      if c2 = CHR '','' then cons_fst (k, v) (parse_members (Suc n) (skip_ws r3))
                      else if c2 = CHR ''}'' then Some ([(k, v)], r3) else None)"
      by (subst parse_members.simps(3))
        (simp del: parse_value.simps parse_elements.simps parse_members.simps
          add: q pc r1 pv')
    show ?thesis
    proof (cases "skip_ws r2")
      case Nil
      with h' show ?thesis by simp
    next
      case (Cons c2 r3)
      show ?thesis
      proof (cases "c2 = CHR '',''")
        case True
        with h' Cons obtain ms r' where t: "parse_members n (skip_ws r3) = Some (ms, r')"
          and x: "x = ((k, v) # ms, r')"
          by (auto simp: cons_fst_def split: option.splits)
        from IHm [OF t] have t': "parse_members (Suc n) (skip_ws r3) = Some (ms, r')" .
        show ?thesis
          unfolding \<open>s = q # cs\<close> g
          by (simp del: parse_value.simps parse_elements.simps parse_members.simps
              add: Cons True t' x cons_fst_def)
      next
        case False
        with h' Cons show ?thesis
          unfolding \<open>s = q # cs\<close> g
          by (simp del: parse_value.simps parse_elements.simps parse_members.simps)
      qed
    qed
  qed
  from v e m show ?case by blast
qed

lemma parse_value_mono: "parse_value n s = Some x \<Longrightarrow> n \<le> m \<Longrightarrow> parse_value m s = Some x"
proof (induction m)
  case 0
  then show ?case by simp
next
  case (Suc m)
  show ?case
  proof (cases "n = Suc m")
    case True
    with Suc.prems show ?thesis by simp
  next
    case False
    with Suc have "parse_value m s = Some x" by simp
    then show ?thesis using parse_mono_aux [of m] by blast
  qed
qed

lemma parse_elements_mono:
  "parse_elements n s = Some x \<Longrightarrow> n \<le> m \<Longrightarrow> parse_elements m s = Some x"
proof (induction m)
  case 0
  then show ?case by simp
next
  case (Suc m)
  show ?case
  proof (cases "n = Suc m")
    case True
    with Suc.prems show ?thesis by simp
  next
    case False
    with Suc have "parse_elements m s = Some x" by simp
    then show ?thesis using parse_mono_aux [of m] by blast
  qed
qed

lemma parse_members_mono:
  "parse_members n s = Some x \<Longrightarrow> n \<le> m \<Longrightarrow> parse_members m s = Some x"
proof (induction m)
  case 0
  then show ?case by simp
next
  case (Suc m)
  show ?case
  proof (cases "n = Suc m")
    case True
    with Suc.prems show ?thesis by simp
  next
    case False
    with Suc have "parse_members m s = Some x" by simp
    then show ?thesis using parse_mono_aux [of m] by blast
  qed
qed

lemma skip_ws_length: "length (skip_ws s) \<le> length s"
  by (simp add: skip_ws_def length_dropWhile_le)

lemma skip_ws_Cons_length: "skip_ws s = c # r \<Longrightarrow> length r < length s"
  using skip_ws_length [of s] by simp

lemma cons_fst_Some: "cons_fst x p = Some y \<Longrightarrow> \<exists>xs r. p = Some (xs, r) \<and> y = (x # xs, r)"
  by (auto simp: cons_fst_def split: option.splits)

lemma parse_chars_shorter: "parse_chars s = Some (k, r) \<Longrightarrow> length r < length s"
proof (induction s arbitrary: k r rule: length_induct)
  case (1 s)
  have IH: "length r' < length s" if "parse_chars t = Some (k', r')" "length t < length s" for t k' r'
    using "1.IH" that by fastforce
  show ?case
  proof (cases s)
    case Nil
    with "1.prems" show ?thesis by simp
  next
    case (Cons c cs)
    consider (quote) "c = CHR 0x22" | (esc) "c \<noteq> CHR 0x22" "c = CHR 0x5C"
      | (plain) "c \<noteq> CHR 0x22" "c \<noteq> CHR 0x5C"
      by blast
    then show ?thesis
    proof cases
      case quote
      with "1.prems" Cons show ?thesis by simp
    next
      case plain
      with "1.prems" Cons obtain xs where "parse_chars cs = Some (xs, r)"
        by (auto split: if_splits dest!: cons_fst_Some)
      then show ?thesis using Cons by (intro IH [of cs xs r]) simp_all
    next
      case esc
      with "1.prems" Cons obtain e cs1 where cs: "cs = e # cs1"
        by (cases cs) auto
      show ?thesis
      proof (cases "e = CHR ''u''")
        case True
        with "1.prems" Cons esc cs obtain h1 h2 h3 h4 cs2 xs
          where "cs1 = h1 # h2 # h3 # h4 # cs2" "parse_chars cs2 = Some (xs, r)"
          by (auto split: list.splits option.splits dest!: cons_fst_Some)
        then show ?thesis using Cons cs by (intro IH [of cs2 xs r]) simp_all
      next
        case False
        with "1.prems" Cons esc cs obtain xs where "parse_chars cs1 = Some (xs, r)"
          by (auto split: option.splits dest!: cons_fst_Some)
        then show ?thesis using Cons cs by (intro IH [of cs1 xs r]) simp_all
      qed
    qed
  qed
qed

lemma parse_number_shorter: "parse_number s = Some (v, r) \<Longrightarrow> length r < length s"
proof -
  assume h: "parse_number s = Some (v, r)"
  define s1 where "s1 = (if (case s of [] \<Rightarrow> False | c # _ \<Rightarrow> c = CHR ''-'') then tl s else s)"
  from h have r: "r = dropWhile is_digit s1" and ne: "takeWhile is_digit s1 \<noteq> []"
    by (auto simp: parse_number_def Let_def s1_def split: if_splits)
  have "length (takeWhile is_digit s1) + length (dropWhile is_digit s1) = length s1"
    by (metis length_append takeWhile_dropWhile_id)
  with ne have "length (dropWhile is_digit s1) < length s1"
    by (cases "takeWhile is_digit s1") auto
  moreover have "length s1 \<le> length s" by (simp add: s1_def)
  ultimately show ?thesis using r by simp
qed

lemma strip_prefix_length: "strip_prefix p s = Some r \<Longrightarrow> length r \<le> length s"
  by (auto simp: strip_prefix_def split: if_splits)

lemma parse_shorter_aux:
  "(\<forall>s v r. parse_value n s = Some (v, r) \<longrightarrow> length r < length s)
   \<and> (\<forall>s vs r. parse_elements n s = Some (vs, r) \<longrightarrow> length r < length s)
   \<and> (\<forall>s ms r. parse_members n s = Some (ms, r) \<longrightarrow> length r < length s)"
proof (induction n)
  case 0
  show ?case by simp
next
  case (Suc n)
  from Suc.IH have IHv: "\<And>s v r. parse_value n s = Some (v, r) \<Longrightarrow> length r < length s"
    and IHe: "\<And>s vs r. parse_elements n s = Some (vs, r) \<Longrightarrow> length r < length s"
    and IHm: "\<And>s ms r. parse_members n s = Some (ms, r) \<Longrightarrow> length r < length s"
    by blast+
  have v: "length r < length s" if h: "parse_value (Suc n) s = Some (v, r)" for s v r
  proof (cases s)
    case Nil
    with h show ?thesis by simp
  next
    case (Cons c cs)
    with h show ?thesis
      by (auto split: if_splits list.splits option.splits
          dest!: IHe IHm parse_chars_shorter parse_number_shorter strip_prefix_length
            skip_ws_Cons_length)
  qed
  have e: "length r < length s" if h: "parse_elements (Suc n) s = Some (vs, r)" for s vs r
  proof -
    from h obtain v r1 where pv: "parse_value n s = Some (v, r1)"
      by (auto split: option.splits)
    from IHv [OF pv] have l1: "length r1 < length s" .
    from h pv obtain c r2 where sk: "skip_ws r1 = c # r2"
      by (auto split: list.splits)
    from skip_ws_Cons_length [OF sk] have l2: "length r2 < length r1" .
    show ?thesis
    proof (cases "c = CHR '',''")
      case True
      with h pv sk obtain vs' where "parse_elements n (skip_ws r2) = Some (vs', r)"
        by (auto dest!: cons_fst_Some)
      from IHe [OF this] skip_ws_length [of r2] l1 l2 show ?thesis by simp
    next
      case False
      with h pv sk have "r = r2" by (auto split: if_splits)
      with l1 l2 show ?thesis by simp
    qed
  qed
  have m: "length r < length s" if h: "parse_members (Suc n) s = Some (ms, r)" for s ms r
  proof (cases s)
    case Nil
    with h show ?thesis by simp
  next
    case (Cons q cs)
    from h Cons have q: "q = CHR 0x22" by (auto split: if_splits)
    from h Cons q obtain k r0 where pc: "parse_chars cs = Some (k, r0)"
      by (auto split: option.splits)
    from h Cons pc q obtain r1 where r1: "skip_ws r0 = CHR '':'' # r1"
      by (auto split: if_splits list.splits)
    from h Cons pc q r1 obtain v r2 where pv: "parse_value n (skip_ws r1) = Some (v, r2)"
      by (auto split: option.splits)
    from h Cons pc q r1 pv obtain c2 r3 where sk: "skip_ws r2 = c2 # r3"
      by (auto split: list.splits)
    have l: "length r3 < length s"
      using parse_chars_shorter [OF pc] skip_ws_Cons_length [OF r1] IHv [OF pv]
        skip_ws_length [of r1] skip_ws_Cons_length [OF sk] Cons
      by simp
    show ?thesis
    proof (cases "c2 = CHR '',''")
      case True
      with h Cons pc q r1 pv sk obtain ms' where "parse_members n (skip_ws r3) = Some (ms', r)"
        by (auto dest!: cons_fst_Some)
      from IHm [OF this] skip_ws_length [of r3] l show ?thesis by simp
    next
      case False
      with h Cons pc q r1 pv sk have "r = r3" by (auto split: if_splits)
      with l show ?thesis by simp
    qed
  qed
  from v e m show ?case by blast
qed

lemma parse_value_shorter: "parse_value n s = Some (v, r) \<Longrightarrow> length r < length s"
  using parse_shorter_aux [of n] by blast

lemma parse_elements_shorter: "parse_elements n s = Some (vs, r) \<Longrightarrow> length r < length s"
  using parse_shorter_aux [of n] by blast

lemma parse_members_shorter: "parse_members n s = Some (ms, r) \<Longrightarrow> length r < length s"
  using parse_shorter_aux [of n] by blast

lemma parse_value_leaf:
  "c \<noteq> CHR ''['' \<Longrightarrow> c \<noteq> CHR ''{'' \<Longrightarrow> parse_value (Suc a) (c # cs) = parse_value (Suc b) (c # cs)"
  by simp

lemma parse_consumed_aux:
  "(\<forall>s v r. parse_value n s = Some (v, r) \<longrightarrow> parse_value (length s - length r) s = Some (v, r))
   \<and> (\<forall>s vs r. parse_elements n s = Some (vs, r)
         \<longrightarrow> parse_elements (length s - length r) s = Some (vs, r))
   \<and> (\<forall>s ms r. parse_members n s = Some (ms, r)
         \<longrightarrow> parse_members (length s - length r) s = Some (ms, r))"
proof (induction n)
  case 0
  show ?case by simp
next
  case (Suc n)
  from Suc.IH
  have IHv: "\<And>s v r. parse_value n s = Some (v, r)
               \<Longrightarrow> parse_value (length s - length r) s = Some (v, r)"
    and IHe: "\<And>s vs r. parse_elements n s = Some (vs, r)
               \<Longrightarrow> parse_elements (length s - length r) s = Some (vs, r)"
    and IHm: "\<And>s ms r. parse_members n s = Some (ms, r)
               \<Longrightarrow> parse_members (length s - length r) s = Some (ms, r)"
    by blast+
  have v: "parse_value (length s - length r) s = Some (v, r)"
    if h: "parse_value (Suc n) s = Some (v, r)" for s v r
  proof (cases s)
    case Nil
    with h show ?thesis by simp
  next
    case (Cons c cs)
    from parse_value_shorter [OF h] Cons
    obtain k where k: "length s - length r = Suc k" and k2: "length cs - length r = k"
      by (cases "length s - length r") auto
    consider (arr) "c = CHR ''[''" | (obj) "c \<noteq> CHR ''[''" "c = CHR ''{''"
      | (leaf) "c \<noteq> CHR ''[''" "c \<noteq> CHR ''{''"
      by blast
    then show ?thesis
    proof cases
      case leaf
      with h Cons parse_value_leaf [OF leaf, of n cs k]
      have "parse_value (Suc k) s = Some (v, r)" by simp
      then show ?thesis by (simp only: k)
    next
      case arr
      from h Cons arr obtain c1 cs1 where sk: "skip_ws cs = c1 # cs1"
        by (cases "skip_ws cs") auto
      show ?thesis
      proof (cases "c1 = CHR '']''")
        case True
        with h Cons arr sk have "parse_value (Suc k) s = Some (v, r)" by simp
        then show ?thesis by (simp only: k)
      next
        case False
        with h Cons arr sk obtain vs
          where t: "parse_elements n (c1 # cs1) = Some (vs, r)" and x: "v = JArr vs"
          by (auto split: option.splits)
        have "length (c1 # cs1) - length r \<le> k"
          using skip_ws_length [of cs] k2 by (simp add: sk)
        with IHe [OF t] have t': "parse_elements k (c1 # cs1) = Some (vs, r)"
          by (rule parse_elements_mono)
        have "parse_value (Suc k) (c # cs) = Some (JArr vs, r)"
          by (subst parse_value.simps(3))
            (simp del: parse_value.simps parse_elements.simps parse_members.simps
              add: arr sk False t')
        with x Cons have "parse_value (Suc k) s = Some (v, r)" by simp
        then show ?thesis by (simp only: k)
      qed
    next
      case obj
      from h Cons obj obtain c1 cs1 where sk: "skip_ws cs = c1 # cs1"
        by (cases "skip_ws cs") auto
      show ?thesis
      proof (cases "c1 = CHR ''}''")
        case True
        with h Cons obj sk have "parse_value (Suc k) s = Some (v, r)" by simp
        then show ?thesis by (simp only: k)
      next
        case False
        with h Cons obj sk obtain ms
          where t: "parse_members n (c1 # cs1) = Some (ms, r)" and x: "v = JObj (obj_of_members ms)"
          by (auto split: option.splits)
        have "length (c1 # cs1) - length r \<le> k"
          using skip_ws_length [of cs] k2 by (simp add: sk)
        with IHm [OF t] have t': "parse_members k (c1 # cs1) = Some (ms, r)"
          by (rule parse_members_mono)
        have "parse_value (Suc k) (c # cs) = Some (JObj (obj_of_members ms), r)"
          by (subst parse_value.simps(3))
            (simp del: parse_value.simps parse_elements.simps parse_members.simps
              add: obj sk False t')
        with x Cons have "parse_value (Suc k) s = Some (v, r)" by simp
        then show ?thesis by (simp only: k)
      qed
    qed
  qed
  have e: "parse_elements (length s - length r) s = Some (vs, r)"
    if h: "parse_elements (Suc n) s = Some (vs, r)" for s vs r
  proof -
    from h obtain v r1 where pv: "parse_value n s = Some (v, r1)"
      by (auto split: option.splits)
    from parse_value_shorter [OF pv] have l1: "length r1 < length s" .
    from h pv obtain c r2 where sk: "skip_ws r1 = c # r2"
      by (auto split: list.splits)
    from skip_ws_Cons_length [OF sk] have l2: "length r2 < length r1" .
    from parse_elements_shorter [OF h] obtain k where k: "length s - length r = Suc k"
      by (cases "length s - length r") auto
    have g: "parse_elements (Suc k) s = Some (vs, r)"
    proof (cases "c = CHR '',''")
      case True
      with h pv sk obtain vs' where t: "parse_elements n (skip_ws r2) = Some (vs', r)"
        and x: "vs = v # vs'"
        by (auto dest!: cons_fst_Some)
      from parse_elements_shorter [OF t] have l3: "length r < length (skip_ws r2)" .
      have "length s - length r1 \<le> k" using k l1 l2 l3 skip_ws_length [of r2] by simp
      with IHv [OF pv] have pv': "parse_value k s = Some (v, r1)" by (rule parse_value_mono)
      have "length (skip_ws r2) - length r \<le> k" using k l1 l2 l3 skip_ws_length [of r2] by simp
      with IHe [OF t] have t': "parse_elements k (skip_ws r2) = Some (vs', r)"
        by (rule parse_elements_mono)
      show ?thesis
        by (subst parse_elements.simps(2))
          (simp del: parse_value.simps parse_elements.simps parse_members.simps
            add: pv' sk True t' x cons_fst_def)
    next
      case False
      with h pv sk have r: "r = r2" and x: "vs = [v]" and c: "c = CHR '']''"
        by (auto split: if_splits)
      have "length s - length r1 \<le> k" using k l1 l2 r by simp
      with IHv [OF pv] have pv': "parse_value k s = Some (v, r1)" by (rule parse_value_mono)
      show ?thesis
        by (subst parse_elements.simps(2))
          (simp del: parse_value.simps parse_elements.simps parse_members.simps
            add: pv' sk c r x)
    qed
    then show ?thesis by (simp only: k)
  qed
  have m: "parse_members (length s - length r) s = Some (ms, r)"
    if h: "parse_members (Suc n) s = Some (ms, r)" for s ms r
  proof (cases s)
    case Nil
    with h show ?thesis by simp
  next
    case (Cons q cs)
    from h Cons have q: "q = CHR 0x22" by (auto split: if_splits)
    from h Cons q obtain key r0 where pc: "parse_chars cs = Some (key, r0)"
      by (auto split: option.splits)
    from h Cons pc q obtain r1 where r1: "skip_ws r0 = CHR '':'' # r1"
      by (auto split: if_splits list.splits)
    from h Cons pc q r1 obtain v r2 where pv: "parse_value n (skip_ws r1) = Some (v, r2)"
      by (auto split: option.splits)
    from h Cons pc q r1 pv obtain c2 r3 where sk: "skip_ws r2 = c2 # r3"
      by (auto split: list.splits)
    note l0 = parse_chars_shorter [OF pc]
    note l1 = skip_ws_Cons_length [OF r1]
    note l2 = parse_value_shorter [OF pv]
    note l3 = skip_ws_Cons_length [OF sk]
    from parse_members_shorter [OF h] obtain k where k: "length s - length r = Suc k"
      by (cases "length s - length r") auto
    have g: "parse_members (Suc k) (q # cs) = Some (ms, r)"
    proof (cases "c2 = CHR '',''")
      case True
      with h Cons pc q r1 pv sk obtain ms' where t: "parse_members n (skip_ws r3) = Some (ms', r)"
        and x: "ms = (key, v) # ms'"
        by (auto dest!: cons_fst_Some)
      from parse_members_shorter [OF t] have l4: "length r < length (skip_ws r3)" .
      have "length (skip_ws r1) - length r2 \<le> k"
        using k l0 l1 l2 l3 l4 skip_ws_length [of r1] skip_ws_length [of r3] Cons by simp
      with IHv [OF pv] have pv': "parse_value k (skip_ws r1) = Some (v, r2)"
        by (rule parse_value_mono)
      have "length (skip_ws r3) - length r \<le> k"
        using k l0 l1 l2 l3 l4 skip_ws_length [of r1] skip_ws_length [of r3] Cons by simp
      with IHm [OF t] have t': "parse_members k (skip_ws r3) = Some (ms', r)"
        by (rule parse_members_mono)
      show ?thesis
        by (subst parse_members.simps(3))
          (simp del: parse_value.simps parse_elements.simps parse_members.simps
            add: q pc r1 pv' sk True t' x cons_fst_def)
    next
      case False
      with h Cons pc q r1 pv sk have r: "r = r3" and x: "ms = [(key, v)]" and c: "c2 = CHR ''}''"
        by (auto split: if_splits)
      have "length (skip_ws r1) - length r2 \<le> k"
        using k l0 l1 l2 l3 r skip_ws_length [of r1] Cons by simp
      with IHv [OF pv] have pv': "parse_value k (skip_ws r1) = Some (v, r2)"
        by (rule parse_value_mono)
      show ?thesis
        by (subst parse_members.simps(3))
          (simp del: parse_value.simps parse_elements.simps parse_members.simps
            add: q pc r1 pv' sk c r x)
    qed
    then have "parse_members (Suc k) s = Some (ms, r)" by (simp only: Cons)
    then show ?thesis by (simp only: k)
  qed
  from v e m show ?case by blast
qed

text \<open>
  A text that parses under some bound parses, to the same value, under the bound that
  \<open>JSON_parse\<close> uses: when \<open>JSON_parse\<close> answers \<open>None\<close>, no bound would have made the
  text parse.
\<close>

lemma parse_value_fuel:
  assumes "parse_value n s = Some (v, r)"
  shows "parse_value (length s) s = Some (v, r)"
proof -
  from assms parse_consumed_aux [of n]
  have "parse_value (length s - length r) s = Some (v, r)" by blast
  then show ?thesis by (rule parse_value_mono) simp
qed

lemma JSON_parse_fuel:
  assumes "parse_value n (skip_ws s) = Some (v, r)" and "skip_ws r = []"
  shows "JSON_parse s = Some v"
proof -
  from parse_value_fuel [OF assms(1)]
  have "parse_value (length (skip_ws s)) (skip_ws s) = Some (v, r)" .
  then have "parse_value (length s) (skip_ws s) = Some (v, r)"
    by (rule parse_value_mono) (rule skip_ws_length)
  with assms(2) show ?thesis by (simp add: JSON_parse_def)
qed

section \<open>Properties of the record store\<close>

lemma readDB_wf: "wf_json (readDB st)"
  by (auto simp: readDB_def split: option.splits dest: JSON_parse_wf)

lemma readDB_writeDB: "wf_json v \<Longrightarrow> readDB (writeDB v st) = v"
  by (simp add: readDB_def writeDB_def JSON_parse_stringify)

lemma uploads_writeDB: "uploads (writeDB v st) = uploads st"
  by (simp add: writeDB_def)

text \<open>
  Claim C7. Saving what was just loaded leaves the record list as it was: loading again
  gives the same records, with the same members and values, in the same order. This
  holds in every state of the backing file, also a missing or unreadable one (the list
  is then empty before and after).
\<close>

theorem C7_save_load_roundtrip: "readDB (writeDB (readDB st) st) = readDB st"
  by (rule readDB_writeDB) (rule readDB_wf)

theorem C7_save_load_roundtrip_witness:
  "readDB (writeDB (readDB \<lparr>db_file = Some ''[{}, 7, []]'', uploads = {}\<rparr>)
             \<lparr>db_file = Some ''[{}, 7, []]'', uploads = {}\<rparr>)
     = JArr [JObj [], JNum 7, JArr []]"
proof -
  have "readDB \<lparr>db_file = Some ''[{}, 7, []]'', uploads = {}\<rparr> = JArr [JObj [], JNum 7, JArr []]"
    by code_simp
  with C7_save_load_roundtrip [of "\<lparr>db_file = Some ''[{}, 7, []]'', uploads = {}\<rparr>"]
  show ?thesis by simp
qed



section \<open>Properties of the review workflow\<close>

lemma map_of_obj_set: "map_of (obj_set k v kvs) k' = (if k' = k then Some v else map_of kvs k')"
  by (induction kvs) auto

lemma find_by_id_Some:
  "find_by_id ident db = Inr (Some i) \<Longrightarrow>
   i < length db \<and> (\<exists>kvs. db ! i = JObj kvs \<and> map_of kvs ''id'' = Some (JStr ident))"
proof (induction db arbitrary: i)
  case Nil
  then show ?case by simp
next
  case (Cons s ss)
  show ?case
  proof (cases "get_prop s ''id'' = Inr (Some (JStr ident))")
    case True
    with Cons.prems have "i = 0" by simp
    moreover from True obtain kvs where "s = JObj kvs" by (cases s) auto
    ultimately show ?thesis using True by auto
  next
    case False
    with Cons.prems obtain j where "find_by_id ident ss = Inr (Some j)" "i = Suc j"
      by (auto split: sum.splits option.splits if_splits)
    with Cons.IH [of j] show ?thesis by simp
  qed
qed


text \<open>The record a review writes back, for a record that is an object.\<close>

lemma reviewed_record:
  "set_prop ''adminNote'' n (set_prop ''status'' s (JObj kvs))
     = JObj (obj_set ''adminNote'' n (obj_set ''status'' s kvs))"
  by simp

lemma field_reviewed:
  "field (JObj (obj_set ''adminNote'' n (obj_set ''status'' s kvs))) k
     = (if k = ''adminNote'' then Some n else if k = ''status'' then Some s else map_of kvs k)"
  by (simp add: map_of_obj_set)

lemma wf_obj_set: "wf_json (JObj kvs) \<Longrightarrow> wf_json v \<Longrightarrow> wf_json (JObj (obj_set k v kvs))"
  by (auto simp: obj_set_distinct dest!: obj_set_values)

lemma wf_list_update:
  "wf_json (JArr db) \<Longrightarrow> wf_json x \<Longrightarrow> wf_json (JArr (db[i := x]))"
  by (auto dest: set_update_subset_insert [THEN subsetD])

lemma wf_or_else: "(case n of None \<Rightarrow> True | Some v \<Rightarrow> wf_json v) \<Longrightarrow> wf_json d \<Longrightarrow> wf_json (or_else n d)"
  by (cases n) auto

text \<open>
  A review of a record that is present: the answer, and the list that is read back
  afterwards. The note comes from the JSON body of the request, so it is well formed.
\<close>

lemma transition_found:
  assumes db: "readDB st = JArr db"
    and found: "find_by_id ident db = Inr (Some i)"
    and wfn: "case note of None \<Rightarrow> True | Some v \<Rightarrow> wf_json v"
  shows "\<exists>kvs. db ! i = JObj kvs \<and> i < length db
           \<and> fst (transition status ident note st) = ok_response
           \<and> uploads (snd (transition status ident note st)) = uploads st
           \<and> readDB (snd (transition status ident note st))
               = JArr (db[i := JObj (obj_set ''adminNote'' (or_else note JNull)
                                      (obj_set ''status'' (JStr status) kvs))])"
proof -
  from find_by_id_Some [OF found] obtain kvs where i: "i < length db" and kvs: "db ! i = JObj kvs"
    by blast
  let ?r = "JObj (obj_set ''adminNote'' (or_else note JNull) (obj_set ''status'' (JStr status) kvs))"
  have wfdb: "wf_json (JArr db)" using readDB_wf [of st] db by simp
  moreover have "db ! i \<in> set db" using i by simp
  ultimately have "wf_json (JObj kvs)" unfolding kvs [symmetric] by simp
  then have "wf_json ?r"
    using wf_or_else [OF wfn, of JNull] by (intro wf_obj_set) simp_all
  then have "wf_json (JArr (db[i := ?r]))" using wfdb by (rule wf_list_update [rotated])
  then have "readDB (writeDB (JArr (db[i := ?r])) st) = JArr (db[i := ?r])"
    by (rule readDB_writeDB)
  then show ?thesis
    using db found i kvs by (simp add: transition_def ok_response_def uploads_writeDB)
qed



lemma requireAdmin_admin: "isAdmin s \<Longrightarrow> requireAdmin (Some s) next st = next st"
  by (simp add: requireAdmin_def)

lemma requireAdmin_denied:
  "sess = None \<or> (\<exists>s. sess = Some s \<and> \<not> isAdmin s)
   \<Longrightarrow> requireAdmin sess next st = (Redirect ''/admin/login'', st)"
  by (auto simp: requireAdmin_def)

lemma readDB_demo_state: "readDB demo_state = JArr demo_records"
  by (simp add: demo_state_def readDB_def JSON_parse_stringify demo_records_def)

lemma find_demo: "find_by_id ''b'' demo_records = Inr (Some 1)"
  by (simp add: demo_records_def)

lemma ADMIN_PASS_not_Nil: "ADMIN_PASS env \<noteq> []"
  by (simp add: ADMIN_PASS_def or_str_def split: option.splits)

text \<open>
  Claim C9. The login succeeds (the session is marked admin and the answer redirects
  to the dashboard) exactly when the submitted password is the string equal to the
  configured password; any other submission redirects to \<^verbatim>\<open>/admin/login?err=1\<close> and
  leaves the session as it was. Without a session marked admin, every admin read
  endpoint answers with a redirect to the login page and nothing else.
\<close>

theorem C9_authentication:
  "((fst (POST_login env (Some s) p) = Redirect ''/admin/dashboard''
       \<and> snd (POST_login env (Some s) p) = Some (s\<lparr>isAdmin := True\<rparr>))
      \<longleftrightarrow> p = Some (JStr (ADMIN_PASS env)))
   \<and> (p \<noteq> Some (JStr (ADMIN_PASS env))
        \<longrightarrow> POST_login env (Some s) p = (Redirect ''/admin/login?err=1'', Some s))
   \<and> (sess = None \<or> (\<exists>s'. sess = Some s' \<and> \<not> isAdmin s')
        \<longrightarrow> GET_dashboard sess st = (Redirect ''/admin/login'', st)
          \<and> GET_submissions sess st = (Redirect ''/admin/login'', st)
          \<and> GET_submission sess ident st = (Redirect ''/admin/login'', st)
          \<and> GET_download sess ident st = (Redirect ''/admin/login'', st))"
proof -
  have eq: "or_else p (JStr '''') = JStr (ADMIN_PASS env) \<longleftrightarrow> p = Some (JStr (ADMIN_PASS env))"
  proof (cases p)
    case None
    then show ?thesis using ADMIN_PASS_not_Nil [of env] by auto
  next
    case (Some v)
    then show ?thesis using ADMIN_PASS_not_Nil [of env] by (cases v) auto
  qed
  have login: "POST_login env (Some s) p =
      (if p = Some (JStr (ADMIN_PASS env)) then (Redirect ''/admin/dashboard'', Some (s\<lparr>isAdmin := True\<rparr>))
       else (Redirect ''/admin/login?err=1'', Some s))"
    unfolding POST_login_def Let_def eq by simp
  show ?thesis
    by (auto simp: login GET_dashboard_def GET_submissions_def GET_submission_def
        GET_download_def requireAdmin_denied)
qed

theorem C9_authentication_witness:
  "POST_login None (Some \<lparr>isAdmin = False\<rparr>) (Some (JStr ''adminpass''))
     = (Redirect ''/admin/dashboard'', Some \<lparr>isAdmin = True\<rparr>)
   \<and> POST_login None (Some \<lparr>isAdmin = False\<rparr>) (Some (JStr ''Adminpass''))
     = (Redirect ''/admin/login?err=1'', Some \<lparr>isAdmin = False\<rparr>)
   \<and> GET_submissions (Some \<lparr>isAdmin = False\<rparr>) demo_state = (Redirect ''/admin/login'', demo_state)
   \<and> GET_download None ''a'' demo_state = (Redirect ''/admin/login'', demo_state)"
proof -
  have pw: "ADMIN_PASS None = ''adminpass''" by (simp add: ADMIN_PASS_def or_str_def)
  show ?thesis
    using
      C9_authentication [of None "\<lparr>isAdmin = False\<rparr>" "Some (JStr ''adminpass'')"
        "Some \<lparr>isAdmin = False\<rparr>" demo_state "''a''"]
      C9_authentication [of None "\<lparr>isAdmin = False\<rparr>" "Some (JStr ''Adminpass'')"
        None demo_state "''a''"]
    by (simp add: pw prod_eq_iff)
qed

text \<open>
  Claim C10. A review (approve or reject) of a record that is present keeps the length
  and the order of the record list, leaves every other record as it was, and in the
  reviewed record changes nothing but the members \<^verbatim>\<open>status\<close> and \<^verbatim>\<open>adminNote\<close>; the
  uploaded files are not touched.
\<close>

theorem C10_review_frame:
  assumes "readDB st = JArr db"
    and "find_by_id ident db = Inr (Some i)"
    and "isAdmin s"
    and "case note of None \<Rightarrow> True | Some v \<Rightarrow> wf_json v"
    and "h = POST_approve \<or> h = POST_reject"
  shows "\<exists>db'. readDB (snd (h (Some s) ident note st)) = JArr db'
           \<and> length db' = length db
           \<and> (\<forall>j<length db. j \<noteq> i \<longrightarrow> db' ! j = db ! j)
           \<and> (\<forall>k. k \<noteq> ''status'' \<and> k \<noteq> ''adminNote''
                 \<longrightarrow> field (db' ! i) k = field (db ! i) k)
           \<and> uploads (snd (h (Some s) ident note st)) = uploads st"
proof -
  from assms(5) obtain status where h: "h (Some s) ident note st = transition status ident note st"
    using assms(3) by (auto simp: POST_approve_def POST_reject_def requireAdmin_admin)
  from transition_found [OF assms(1,2,4), of status]
  obtain kvs where kvs: "db ! i = JObj kvs" and i: "i < length db"
    and up: "uploads (snd (transition status ident note st)) = uploads st"
    and rd: "readDB (snd (transition status ident note st))
               = JArr (db[i := JObj (obj_set ''adminNote'' (or_else note JNull)
                                      (obj_set ''status'' (JStr status) kvs))])"
    by blast
  show ?thesis
    unfolding h rd using i kvs up by (simp add: map_of_obj_set)
qed

theorem C10_review_frame_witness:
  "\<exists>db'. readDB (snd (POST_reject admin ''b'' (Some (JStr ''late'')) demo_state)) = JArr db'
     \<and> length db' = length demo_records
     \<and> (\<forall>j<length demo_records. j \<noteq> 1 \<longrightarrow> db' ! j = demo_records ! j)
     \<and> (\<forall>k. k \<noteq> ''status'' \<and> k \<noteq> ''adminNote''
           \<longrightarrow> field (db' ! 1) k = field (demo_records ! 1) k)
     \<and> uploads (snd (POST_reject admin ''b'' (Some (JStr ''late'')) demo_state))
          = uploads demo_state"
  unfolding admin_def
  by (rule C10_review_frame [OF readDB_demo_state find_demo]) simp_all




section \<open>Properties of submission ingestion\<close>

lemma get_prop_field: "t \<noteq> JNull \<Longrightarrow> get_prop t k = Inr (field t k)"
  by (cases t) simp_all

lemma field_with_file:
  "field (with_file t f n) k
     = (if k = ''originalFileName'' then Some n else if k = ''file'' then Some f
        else map_of (spread t) k)"
  by (simp add: with_file_def map_of_obj_set)

lemma show_nat_inj: "show_nat a = show_nat b \<Longrightarrow> a = b"
  by (metis nat_of_digits_show_nat)

lemma distinct_index_keys:
  "distinct (map (fst \<circ> (\<lambda>(i, x). (show_nat i, f x))) (enumerate n xs))"
  by (auto simp: distinct_map inj_on_def in_set_enumerate_eq dest: show_nat_inj)

lemma wf_spread: "wf_json t \<Longrightarrow> wf_json (JObj (spread t))"
proof (cases t)
  case (JArr xs)
  assume "wf_json t"
  with JArr have "\<forall>x\<in>set xs. wf_json x" by simp
  then have "\<forall>kv\<in>set (map (\<lambda>(i, x). (show_nat i, x)) (enumerate 0 xs)). wf_json (snd kv)"
    by (auto simp: in_set_enumerate_eq)
  then show ?thesis
    using JArr distinct_index_keys [of "\<lambda>x. x" 0 xs] by simp
next
  case (JStr s)
  then show ?thesis
    using distinct_index_keys [of "\<lambda>c. JStr [c]" 0 s]
    by (auto simp: case_prod_unfold)
qed simp_all

lemma wf_with_file: "wf_json t \<Longrightarrow> wf_json f \<Longrightarrow> wf_json n \<Longrightarrow> wf_json (with_file t f n)"
  unfolding with_file_def by (intro wf_obj_set wf_spread)

lemma find_upload_find:
  "t \<noteq> JNull \<Longrightarrow>
   find_upload t fs
     = Inr (find (\<lambda>f. JStr (originalname f) = or_else (field t ''fileName'') (JStr '''')) fs)"
  by (induction fs) (simp_all add: get_prop_field)

lemma track_with_file_total:
  "t \<noteq> JNull \<Longrightarrow> \<exists>t'. track_with_file fs t i = Inr t'"
  by (simp add: track_with_file_def find_upload_find split: option.splits)

lemma track_with_file_wf:
  "wf_json t \<Longrightarrow> track_with_file fs t i = Inr t' \<Longrightarrow> wf_json t'"
  by (auto simp: track_with_file_def wf_with_file split: sum.splits option.splits if_splits)

lemma map_tracks_ok:
  "JNull \<notin> set ts \<Longrightarrow>
   \<exists>tw. map_tracks fs ts i = Inr tw \<and> length tw = length ts
        \<and> (\<forall>j<length ts. track_with_file fs (ts ! j) (i + j) = Inr (tw ! j))"
proof (induction ts arbitrary: i)
  case Nil
  then show ?case by simp
next
  case (Cons t ts)
  from Cons.prems have "t \<noteq> JNull" by auto
  then obtain t' where t': "track_with_file fs t i = Inr t'"
    using track_with_file_total by blast
  from Cons.prems Cons.IH [of "Suc i"] obtain tw where tw: "map_tracks fs ts (Suc i) = Inr tw"
    "length tw = length ts" "\<forall>j<length ts. track_with_file fs (ts ! j) (Suc i + j) = Inr (tw ! j)"
    by auto
  have "\<forall>j<length (t # ts). track_with_file fs ((t # ts) ! j) (i + j) = Inr ((t' # tw) ! j)"
  proof (intro allI impI)
    fix j
    assume "j < length (t # ts)"
    then show "track_with_file fs ((t # ts) ! j) (i + j) = Inr ((t' # tw) ! j)"
      using t' tw(3) by (cases j) simp_all
  qed
  with t' tw(1,2) show ?case by simp
qed

lemma map_tracks_wf:
  "\<forall>t\<in>set ts. wf_json t \<Longrightarrow> map_tracks fs ts i = Inr tw \<Longrightarrow> \<forall>t\<in>set tw. wf_json t"
proof (induction ts arbitrary: i tw)
  case Nil
  then show ?case by simp
next
  case (Cons t ts)
  from Cons.prems(2) obtain t' tw' where t': "track_with_file fs t i = Inr t'"
    and tw': "map_tracks fs ts (Suc i) = Inr tw'" and tw: "tw = t' # tw'"
    by (auto split: sum.splits)
  from Cons.prems(1) t' have "wf_json t'" by (auto dest: track_with_file_wf [rotated])
  moreover from Cons.IH [OF _ tw'] Cons.prems(1) have "\<forall>t\<in>set tw'. wf_json t" by simp
  ultimately show ?case by (simp add: tw)
qed

lemma wf_submission:
  "\<forall>t\<in>set tw. wf_json t \<Longrightarrow> wf_json (submission subId now req covers tw)"
  by (simp add: submission_def split: list.splits)

lemma readDB_uploads_update [simp]: "readDB (st\<lparr>uploads := u\<rparr>) = readDB st"
  by (simp add: readDB_def)

text \<open>
  A request the handler accepts: a multipart form within the upload limits whose
  \<^verbatim>\<open>tracks\<close> field (or \<^verbatim>\<open>[]\<close> in its place) is a JSON array without \<^verbatim>\<open>null\<close> elements, on a
  record store that holds a list.
\<close>

lemma submit_ok:
  assumes mp: "multipart req"
    and lim: "length (cover_parts req) \<le> 1" "length (track_parts req) \<le> 200"
    and tr: "JSON_parse (or_str (body_tracks req) ''[]'') = Some (JArr ts)"
    and nn: "JNull \<notin> set ts"
    and db: "readDB st = JArr db"
  shows "\<exists>tw. fst (POST_submit subId now req st) = received subId
           \<and> uploads (snd (POST_submit subId now req st))
               = store_files subId (cover_parts req @ track_parts req) (uploads st)
           \<and> readDB (snd (POST_submit subId now req st))
               = JArr (db @ [submission subId now req
                               (map (stored_file subId) (cover_parts req)) tw])
           \<and> length tw = length ts
           \<and> (\<forall>j<length ts.
                 track_with_file (map (stored_file subId) (track_parts req)) (ts ! j) j
                   = Inr (tw ! j))"
proof -
  let ?fs = "map (stored_file subId) (track_parts req)"
  let ?st' = "st\<lparr>uploads := store_files subId (cover_parts req @ track_parts req) (uploads st)\<rparr>"
  from map_tracks_ok [OF nn, of ?fs 0] obtain tw where tw: "map_tracks ?fs ts 0 = Inr tw"
    "length tw = length ts" "\<forall>j<length ts. track_with_file ?fs (ts ! j) j = Inr (tw ! j)"
    by auto
  let ?sub = "submission subId now req (map (stored_file subId) (cover_parts req)) tw"
  have "wf_json (JArr ts)" using tr by (rule JSON_parse_wf)
  then have "\<forall>t\<in>set tw. wf_json t" using map_tracks_wf [OF _ tw(1)] by simp
  then have "wf_json ?sub" by (rule wf_submission)
  moreover have "wf_json (JArr db)" using readDB_wf [of st] db by simp
  ultimately have "wf_json (JArr (db @ [?sub]))" by auto
  then have rd: "readDB (writeDB (JArr (db @ [?sub])) ?st') = JArr (db @ [?sub])"
    by (rule readDB_writeDB)
  have "POST_submit subId now req st = (received subId, writeDB (JArr (db @ [?sub])) ?st')"
    using mp lim tr tw(1) db
    by (simp add: POST_submit_def upload_fields_def submit_handler_def)
  then show ?thesis using rd tw(2,3) by (intro exI [of _ tw]) (simp add: uploads_writeDB)
qed

subsection \<open>The record store holds a list\<close>

text \<open>
  The server starts with the text \<^verbatim>\<open>[]\<close> in the record file, and a handler that finds a
  list in the store leaves a list there: the list is the state the properties below
  are stated on.
\<close>

lemma readDB_initial: "readDB \<lparr>db_file = Some ''[]'', uploads = fs\<rparr> = JArr []"
proof -
  have "JSON_parse ''[]'' = Some (JArr [])" by code_simp
  then show ?thesis by (simp add: readDB_def)
qed

lemma tracksWithFiles_wf:
  "wf_json v \<Longrightarrow> tracksWithFiles v fs = Inr tw \<Longrightarrow> \<forall>t\<in>set tw. wf_json t"
  by (cases v) (auto dest: map_tracks_wf [rotated])

lemma submit_handler_keeps_list:
  assumes "readDB st = JArr db"
  shows "\<exists>db'. readDB (snd (submit_handler subId now req files st)) = JArr db'"
proof (cases "JSON_parse (or_str (body_tracks req) ''[]'')")
  case None
  with assms show ?thesis by (simp add: submit_handler_def)
next
  case (Some tracks)
  then have wft: "wf_json tracks" by (rule JSON_parse_wf)
  show ?thesis
  proof (cases files)
    case None
    with Some assms show ?thesis by (simp add: submit_handler_def)
  next
    case (Some fs)
    note files = Some
    show ?thesis
    proof (cases "tracksWithFiles tracks (trackFiles fs)")
      case (Inl e)
      with \<open>JSON_parse (or_str (body_tracks req) ''[]'') = Some tracks\<close> files assms
      show ?thesis by (simp add: submit_handler_def)
    next
      case (Inr tw)
      from tracksWithFiles_wf [OF wft Inr] have "wf_json (submission subId now req (cover fs) tw)"
        by (rule wf_submission)
      moreover have "wf_json (JArr db)" using readDB_wf [of st] assms by simp
      ultimately have "wf_json (JArr (db @ [submission subId now req (cover fs) tw]))" by auto
      from readDB_writeDB [OF this, of st]
        \<open>JSON_parse (or_str (body_tracks req) ''[]'') = Some tracks\<close> files assms Inr
      show ?thesis by (simp add: submit_handler_def)
    qed
  qed
qed

lemma POST_submit_keeps_list:
  assumes "readDB st = JArr db"
  shows "\<exists>db'. readDB (snd (POST_submit subId now req st)) = JArr db'"
proof -
  obtain r st' where u: "upload_fields subId req st = (r, st')" by (cases "upload_fields subId req st")
  then have "readDB st' = JArr db"
    using assms by (auto simp: upload_fields_def split: if_splits)
  with u show ?thesis
    using submit_handler_keeps_list [of st' db subId now req]
    by (cases r) (auto simp: POST_submit_def)
qed

lemma transition_keeps_list:
  assumes "readDB st = JArr db" and "case note of None \<Rightarrow> True | Some v \<Rightarrow> wf_json v"
  shows "\<exists>db'. readDB (snd (transition status ident note st)) = JArr db'"
proof (cases "find_by_id ident db")
  case (Inl e)
  with assms(1) show ?thesis by (simp add: transition_def)
next
  case (Inr found)
  show ?thesis
  proof (cases found)
    case None
    with Inr assms(1) show ?thesis by (simp add: transition_def)
  next
    case (Some i)
    with Inr transition_found [OF assms(1) _ assms(2), of ident i status]
    show ?thesis by auto
  qed
qed

lemma find_stored_file:
  "find (\<lambda>f. JStr (originalname f) = d) (map (stored_file subId) names)
     = (case d of
          JStr n \<Rightarrow> if n \<in> set names then Some (stored_file subId n) else None
        | _ \<Rightarrow> None)"
  by (induction names) (auto simp: stored_file_def split: json.splits)

lemma track_with_file_cases:
  assumes "t \<noteq> JNull"
    and "track_with_file (map (stored_file subId) names) t j = Inr t'"
  shows "(\<forall>n\<in>set names. declared_name t = JStr n \<longrightarrow>
            field t' ''file'' = Some (JStr (subId @ ''/'' @ n))
            \<and> field t' ''originalFileName'' = Some (JStr n))
         \<and> ((\<forall>n\<in>set names. declared_name t \<noteq> JStr n) \<and> j < length names \<longrightarrow>
              field t' ''file'' = Some (JStr (subId @ ''/'' @ names ! j))
              \<and> field t' ''originalFileName'' = Some (JStr (names ! j)))
         \<and> ((\<forall>n\<in>set names. declared_name t \<noteq> JStr n) \<and> length names \<le> j \<longrightarrow>
              field t' ''file'' = Some JNull \<and> field t' ''originalFileName'' = Some JNull)"
  using assms
  by (auto simp: track_with_file_def find_upload_find find_stored_file declared_name_def
      field_with_file stored_file_def split: json.splits if_splits)

lemma records_last:
  "readDB st = JArr (db @ [sub]) \<Longrightarrow> last (records st) = sub"
  by (simp add: records_def)

lemma field_submission:
  "field (submission subId now req covers tw) ''id'' = Some (JStr subId)"
  "field (submission subId now req covers tw) ''numSongs'' = Some (JNum (numSongs_of (body_numSongs req)))"
  "field (submission subId now req covers tw) ''tracks'' = Some (JArr tw)"
  "field (submission subId now req covers tw) ''status'' = Some (JStr ''pending'')"
  "field (submission subId now req covers tw) ''adminNote'' = Some JNull"
  by (simp_all add: submission_def)

text \<open>
  Claim C1, as the code has it. An accepted ingestion succeeds and stores one track
  per declared track. A track whose declared \<^verbatim>\<open>fileName\<close> is the name of an upload gets
  that upload (the file stored under that name in the submission's directory),
  wherever the upload stands in the list. A track without a name match gets the upload
  at its own position in the whole upload list, and no file (\<^verbatim>\<open>null\<close>) when the list
  is too short; the ingestion succeeds all the same.
\<close>

theorem C1_track_file_matching:
  assumes "multipart req"
    and "length (cover_parts req) \<le> 1"
    and "length (track_parts req) \<le> 200"
    and "JSON_parse (or_str (body_tracks req) ''[]'') = Some (JArr ts)"
    and "JNull \<notin> set ts"
    and "readDB st = JArr db"
  shows "fst (POST_submit subId now req st) = received subId
     \<and> length (stored_tracks (last (records (snd (POST_submit subId now req st))))) = length ts
     \<and> (\<forall>j<length ts.
          (\<forall>n\<in>set (track_parts req). declared_name (ts ! j) = JStr n \<longrightarrow>
             field (stored_tracks (last (records (snd (POST_submit subId now req st)))) ! j) ''file''
               = Some (JStr (subId @ ''/'' @ n)))
          \<and> ((\<forall>n\<in>set (track_parts req). declared_name (ts ! j) \<noteq> JStr n)
                \<and> j < length (track_parts req) \<longrightarrow>
             field (stored_tracks (last (records (snd (POST_submit subId now req st)))) ! j) ''file''
               = Some (JStr (subId @ ''/'' @ track_parts req ! j)))
          \<and> ((\<forall>n\<in>set (track_parts req). declared_name (ts ! j) \<noteq> JStr n)
                \<and> length (track_parts req) \<le> j \<longrightarrow>
             field (stored_tracks (last (records (snd (POST_submit subId now req st)))) ! j) ''file''
               = Some JNull))"
proof -
  from submit_ok [OF assms, of subId now] obtain tw
    where r: "fst (POST_submit subId now req st) = received subId"
      and rd: "readDB (snd (POST_submit subId now req st))
                 = JArr (db @ [submission subId now req
                                 (map (stored_file subId) (cover_parts req)) tw])"
      and len: "length tw = length ts"
      and tw: "\<forall>j<length ts.
                 track_with_file (map (stored_file subId) (track_parts req)) (ts ! j) j
                   = Inr (tw ! j)"
    by blast
  have st: "stored_tracks (last (records (snd (POST_submit subId now req st)))) = tw"
    by (simp add: records_last [OF rd] stored_tracks_def field_submission)
  have main: "(\<forall>n\<in>set (track_parts req). declared_name (ts ! j) = JStr n \<longrightarrow>
                 field (tw ! j) ''file'' = Some (JStr (subId @ ''/'' @ n)))
          \<and> ((\<forall>n\<in>set (track_parts req). declared_name (ts ! j) \<noteq> JStr n)
                \<and> j < length (track_parts req) \<longrightarrow>
                 field (tw ! j) ''file'' = Some (JStr (subId @ ''/'' @ track_parts req ! j)))
          \<and> ((\<forall>n\<in>set (track_parts req). declared_name (ts ! j) \<noteq> JStr n)
                \<and> length (track_parts req) \<le> j \<longrightarrow>
                 field (tw ! j) ''file'' = Some JNull)"
    if j: "j < length ts" for j
  proof -
    from j assms(5) have "ts ! j \<noteq> JNull" by (metis nth_mem)
    moreover from j tw
    have "track_with_file (map (stored_file subId) (track_parts req)) (ts ! j) j = Inr (tw ! j)"
      by simp
    ultimately show ?thesis
      using track_with_file_cases [of "ts ! j" subId "track_parts req" j "tw ! j"] by blast
  qed
  show ?thesis
    unfolding st using r len main by simp
qed

lemma JSON_stringify_not_Nil: "JSON_stringify v \<noteq> []"
  using ser_nonws [of 0 v] by (auto simp: JSON_stringify_def)

lemma demo_request_tracks:
  "JSON_parse (or_str (body_tracks demo_request) ''[]'') = Some (JArr demo_tracks)"
  by (simp add: demo_request_def or_str_def JSON_stringify_not_Nil JSON_parse_stringify
      demo_tracks_def)

lemma demo_request_valid:
  "multipart demo_request" "length (cover_parts demo_request) \<le> 1"
  "length (track_parts demo_request) \<le> 200" "JNull \<notin> set demo_tracks"
  by (simp_all add: demo_request_def demo_tracks_def)

theorem C1_track_file_matching_witness:
  "fst (POST_submit ''s1'' ''t0'' demo_request demo_state) = received ''s1''
   \<and> length (stored_tracks (last (records (snd (POST_submit ''s1'' ''t0'' demo_request demo_state)))))
       = 2
   \<and> field (stored_tracks (last (records (snd (POST_submit ''s1'' ''t0'' demo_request demo_state)))) ! 0)
        ''file'' = Some (JStr ''s1/b.mp3'')
   \<and> field (stored_tracks (last (records (snd (POST_submit ''s1'' ''t0'' demo_request demo_state)))) ! 1)
        ''file'' = Some (JStr ''s1/b.mp3'')"
proof -
  note th = C1_track_file_matching [OF demo_request_valid(1,2,3) demo_request_tracks
      demo_request_valid(4) readDB_demo_state, of "''s1''" "''t0''"]
  note tracks = th [THEN conjunct2, THEN conjunct2, rule_format]
  have names: "track_parts demo_request = [''a.mp3'', ''b.mp3'']" by (simp add: demo_request_def)
  have d0: "declared_name (demo_tracks ! 0) = JStr ''b.mp3''"
    and d1: "declared_name (demo_tracks ! Suc 0) = JStr ''''"
    by (simp_all add: demo_tracks_def declared_name_def)
  have len: "length demo_tracks = 2" by (simp add: demo_tracks_def)
  from tracks [of 0] have t0:
    "field (stored_tracks (last (records (snd (POST_submit ''s1'' ''t0'' demo_request demo_state)))) ! 0)
       ''file'' = Some (JStr ''s1/b.mp3'')"
    by (simp add: names d0 len)
  from tracks [of 1] have t1:
    "field (stored_tracks (last (records (snd (POST_submit ''s1'' ''t0'' demo_request demo_state)))) ! 1)
       ''file'' = Some (JStr ''s1/b.mp3'')"
    by (simp add: names d1 len)
  from th t0 t1 show ?thesis by (simp add: len)
qed

text \<open>
  The claim as stated fails on the fallback. The uploads are \<^verbatim>\<open>a.mp3\<close> and \<^verbatim>\<open>b.mp3\<close>; the
  first track names \<^verbatim>\<open>b.mp3\<close>, the second names nothing. The only upload without a
  name match is \<^verbatim>\<open>a.mp3\<close>, so the second track (position 1) would get no file; the code
  gives it \<^verbatim>\<open>b.mp3\<close>, the upload at position 1 of the whole list.
\<close>

theorem C1_counterexample:
  "declared_name (demo_tracks ! 1) = JStr ''''
   \<and> track_parts demo_request = [''a.mp3'', ''b.mp3'']
   \<and> spec_unmatched_uploads demo_tracks (track_parts demo_request) = [''a.mp3'']
   \<and> spec_fallback_file ''s1'' demo_tracks (track_parts demo_request) 1 = JNull
   \<and> field (stored_tracks (last (records (snd (POST_submit ''s1'' ''t0'' demo_request demo_state)))) ! 1)
        ''file'' = Some (JStr ''s1/b.mp3'')"
  by code_simp















section \<open>Properties of the archive export\<close>





end
